theory Spec2Isabelle
  imports Complex_Main "HOL-Library.List_Lexorder" "HOL-Library.Multiset"
begin

section \<open>Exceptions and Python primitives\<close>

text \<open>
  The exceptions the modelled functions of \<^verbatim>\<open>main.py\<close> can raise. A function that can
  raise returns \<open>error + 'a\<close>, with \<open>Inl\<close> for the exception.
\<close>

datatype error = ValueError | NotADirectoryError | RuntimeError

text \<open>
  A generator that ends is what it yields, in order, and how it ends: \<open>None\<close> when it
  returns (\<^verbatim>\<open>StopIteration\<close>), \<open>Some e\<close> when it raises \<open>e\<close> after the last yield.
\<close>

type_synonym 'a gen = "'a list \<times> error option"

text \<open>
  \<^verbatim>\<open>range(start, stop, step)\<close>: a zero step raises \<^verbatim>\<open>ValueError\<close>, a positive step counts
  up while the index is below \<open>stop\<close>, a negative step counts down while it is above.
\<close>

function range_up :: "int \<Rightarrow> int \<Rightarrow> int \<Rightarrow> int list" where
  "range_up i stop step = (if 0 < step \<and> i < stop then i # range_up (i + step) stop step else [])"
  by pat_completeness auto
termination
  by (relation "measure (\<lambda>(i, stop, step). nat (stop - i))") auto

function range_down :: "int \<Rightarrow> int \<Rightarrow> int \<Rightarrow> int list" where
  "range_down i stop step = (if step < 0 \<and> stop < i then i # range_down (i + step) stop step else [])"
  by pat_completeness auto
termination
  by (relation "measure (\<lambda>(i, stop, step). nat (i - stop))") auto

declare range_up.simps [simp del] range_down.simps [simp del]

definition py_range :: "int \<Rightarrow> int \<Rightarrow> int \<Rightarrow> error + int list" where
  "py_range start stop step =
     (if step = 0 then Inl ValueError
      else if 0 < step then Inr (range_up start stop step)
      else Inr (range_down start stop step))"

text \<open>
  \<^verbatim>\<open>xs[lo:hi]\<close>: a negative bound counts from the end, and both bounds are clipped to the
  list, so a slice never raises.
\<close>

definition clip_index :: "nat \<Rightarrow> int \<Rightarrow> nat" where
  "clip_index n i = (if i < 0 then nat (max 0 (int n + i)) else min n (nat i))"

definition py_slice :: "'a list \<Rightarrow> int \<Rightarrow> int \<Rightarrow> 'a list" where
  "py_slice xs lo hi =
     (let l = clip_index (length xs) lo; h = clip_index (length xs) hi
      in take (h - l) (drop l xs))"

section \<open>Strings and paths\<close>

text \<open>
  A Python \<^verbatim>\<open>str\<close> is a sequence of Unicode code points: a character is its code point, a
  natural number, and strings compare by code points. \<open>str\<close> writes an ASCII literal.
  \<^verbatim>\<open>'/'\<close> is both \<^verbatim>\<open>S3Path.sep\<close> and the separator of \<^verbatim>\<open>PurePosixPath\<close>.
\<close>

type_synonym pystr = "nat list"

abbreviation str :: "string \<Rightarrow> pystr" where
  "str s \<equiv> map of_char s"

definition sep :: nat where
  "sep = of_char (CHR ''/'')"

text \<open>\<^verbatim>\<open>s.split(c)\<close> for a one-character separator: never empty, \<^verbatim>\<open>''.split('/') == ['']\<close>.\<close>

fun str_split :: "nat \<Rightarrow> pystr \<Rightarrow> pystr list" where
  "str_split c [] = [[]]"
| "str_split c (x # xs) =
     (if x = c then [] # str_split c xs
      else (case str_split c xs of [] \<Rightarrow> [[x]] | w # ws \<Rightarrow> (x # w) # ws))"

text \<open>\<^verbatim>\<open>c.join(parts)\<close>\<close>

fun str_join :: "nat \<Rightarrow> pystr list \<Rightarrow> pystr" where
  "str_join c [] = []"
| "str_join c [p] = p"
| "str_join c (p # q # ps) = p @ c # str_join c (q # ps)"

definition lstrip :: "nat \<Rightarrow> pystr \<Rightarrow> pystr" where
  "lstrip c s = dropWhile (\<lambda>x. x = c) s"

definition rstrip :: "nat \<Rightarrow> pystr \<Rightarrow> pystr" where
  "rstrip c s = rev (dropWhile (\<lambda>x. x = c) (rev s))"

text \<open>\<^verbatim>\<open>s.endswith(c)\<close> and \<^verbatim>\<open>s.count(c)\<close> for a one-character argument.\<close>

definition endswith :: "pystr \<Rightarrow> nat \<Rightarrow> bool" where
  "endswith s c = (s \<noteq> [] \<and> last s = c)"

definition str_count :: "pystr \<Rightarrow> nat \<Rightarrow> nat" where
  "str_count s c = length (filter (\<lambda>x. x = c) s)"

text \<open>\<^verbatim>\<open>s.rsplit(c, 1)[0]\<close>: what stands before the last \<open>c\<close>, the whole string when there is none.\<close>

definition rsplit1_head :: "nat \<Rightarrow> pystr \<Rightarrow> pystr" where
  "rsplit1_head c s = (if c \<in> set s then rev (tl (dropWhile (\<lambda>x. x \<noteq> c) (rev s))) else s)"

text \<open>
  \<^verbatim>\<open>PurePosixPath\<close> as pathlib parses it: a root (\<^verbatim>\<open>'/'\<close>, or \<^verbatim>\<open>'//'\<close> for exactly two
  leading slashes), then the components between slashes, the empty ones and \<^verbatim>\<open>'.'\<close> dropped.
\<close>

record PurePosixPath =
  root :: pystr
  parts :: "pystr list"

definition splitroot :: "pystr \<Rightarrow> pystr \<times> pystr" where
  "splitroot part =
     (if part \<noteq> [] \<and> hd part = sep then
        (let stripped = lstrip sep part
         in (if length part - length stripped = 2 then [sep, sep] else [sep], stripped))
      else ([], part))"

definition parse_path :: "pystr \<Rightarrow> PurePosixPath" where
  "parse_path s =
     (case splitroot s of (r, rel) \<Rightarrow>
        \<lparr>root = r, parts = filter (\<lambda>x. x \<noteq> [] \<and> x \<noteq> (str ''.'')) (str_split sep rel)\<rparr>)"

text \<open>\<^verbatim>\<open>.name\<close>: the last component, empty when there is none.\<close>

definition name :: "PurePosixPath \<Rightarrow> pystr" where
  "name p = (if parts p = [] then [] else last (parts p))"

text \<open>
  \<^verbatim>\<open>.suffix\<close>: from the last dot of the name on, when that dot is neither the first nor the last
  character of the name.
\<close>

definition rfind :: "pystr \<Rightarrow> nat \<Rightarrow> nat option" where
  "rfind s c = (if c \<in> set s then Some (length s - 1 - length (takeWhile (\<lambda>x. x \<noteq> c) (rev s))) else None)"

definition suffix :: "PurePosixPath \<Rightarrow> pystr" where
  "suffix p =
     (case rfind (name p) (of_char (CHR ''.'')) of
        None \<Rightarrow> []
      | Some i \<Rightarrow> if 0 < i \<and> i < length (name p) - 1 then drop i (name p) else [])"

text \<open>\<^verbatim>\<open>.with_name(n)\<close> raises on a path without a name and on a name that is not one component.\<close>

definition with_name :: "PurePosixPath \<Rightarrow> pystr \<Rightarrow> error + PurePosixPath" where
  "with_name p n =
     (if name p = [] then Inl ValueError
      else if n = [] \<or> last n = sep \<or> root (parse_path n) \<noteq> [] \<or> length (parts (parse_path n)) \<noteq> 1
        then Inl ValueError
      else Inr (p\<lparr>parts := butlast (parts p) @ [n]\<rparr>))"

text \<open>\<^verbatim>\<open>str(path)\<close>: the empty path prints as \<^verbatim>\<open>'.'\<close>.\<close>

definition path_str :: "PurePosixPath \<Rightarrow> pystr" where
  "path_str p = (let s = root p @ str_join sep (parts p) in if s = [] then (str ''.'') else s)"

section \<open>RollupTask\<close>

record RollupTask =
  s3_role :: pystr
  bucket_name :: pystr
  common_prefix :: pystr
  basenames :: "pystr list"

text \<open>\<^verbatim>\<open>__len__\<close>\<close>

definition len :: "RollupTask \<Rightarrow> nat" where
  "len task = length (basenames task)"

text \<open>
  \<^verbatim>\<open>RollupTask.split\<close>: one chunk for every index of \<^verbatim>\<open>range(0, len(self), chunk_size)\<close>,
  holding \<^verbatim>\<open>self.basenames[i:i + chunk_size]\<close>.
\<close>

definition RollupTask_split :: "RollupTask \<Rightarrow> int \<Rightarrow> RollupTask gen" where
  "RollupTask_split task chunk_size =
     (case py_range 0 (int (len task)) chunk_size of
        Inl e \<Rightarrow> ([], Some e)
      | Inr idx \<Rightarrow>
          (map (\<lambda>i. task\<lparr>basenames := py_slice (basenames task) i (i + chunk_size)\<rparr>) idx, None))"

definition TARBALL_PREFIX :: pystr where
  "TARBALL_PREFIX = (str ''rollup'')"

text \<open>\<^verbatim>\<open>object_keys\<close> is a list comprehension over \<^verbatim>\<open>basenames\<close>: it has no guard and cannot raise.\<close>

definition object_keys :: "RollupTask \<Rightarrow> pystr list" where
  "object_keys task = map (\<lambda>bn. common_prefix task @ bn) (basenames task)"

definition date_str :: "RollupTask \<Rightarrow> error + pystr" where
  "date_str task =
     (if basenames task = [] then Inl ValueError
      else Inr (take 10 (name (parse_path (hd (basenames task))))))"

text \<open>
  \<^verbatim>\<open>tarball_key\<close>; the argument \<open>random_str\<close> is what \<^verbatim>\<open>secrets.token_hex(4)\<close> returned.
\<close>

definition tarball_key :: "pystr \<Rightarrow> RollupTask \<Rightarrow> error + pystr" where
  "tarball_key random_str task =
     (if basenames task = [] then Inl ValueError
      else
        (case date_str task of
           Inl e \<Rightarrow> Inl e
         | Inr d \<Rightarrow>
            (case with_name (parse_path (hd (object_keys task)))
                    (TARBALL_PREFIX @ (str ''-'') @ d @ (str ''-'') @ random_str @ (str ''.tgz'')) of
               Inl e \<Rightarrow> Inl e
             | Inr p \<Rightarrow> Inr (path_str p))))"

text \<open>The task of \<^verbatim>\<open>TestRollupTask\<close> in \<^verbatim>\<open>main_test.py\<close>.\<close>

definition test_task :: RollupTask where
  "test_task =
     \<lparr>s3_role = (str ''arn:aws:iam::123456789012:role/s3-rollup-bucket-access''),
      bucket_name = (str ''bucket1''),
      common_prefix = (str ''example.com/''),
      basenames =
        [(str ''2022-06-30-16-13-48-F7334FE15D46A819''),
         (str ''2022-06-30-17-13-48-F7334FE15D46A819''),
         (str ''2022-06-30-18-13-48-F7334FE15D46A819''),
         (str ''2022-06-30-19-13-48-F7334FE15D46A819''),
         (str ''2022-06-30-20-13-48-F7334FE15D46A819''),
         (str ''2022-06-30-21-13-48-F7334FE15D46A819''),
         (str ''2022-06-30-22-13-48-F7334FE15D46A819''),
         (str ''2022-06-30-23-13-48-F7334FE15D46A819'')]\<rparr>"

section \<open>S3Path\<close>

text \<open>
  \<^verbatim>\<open>S3URI.from_segments(bucket, key).key\<close>: the key goes through \<^verbatim>\<open>urlparse\<close> inside the URI
  \<^verbatim>\<open>s3://bucket/key\<close>, which removes every tab, line feed and carriage return and ends the
  path before the first \<^verbatim>\<open>'#'\<close> or \<^verbatim>\<open>'?'\<close>. The bucket is a bucket name (lowercase letters,
  digits, dots and hyphens), which comes back unchanged as the host name.
\<close>

definition from_segments_key :: "pystr \<Rightarrow> pystr" where
  "from_segments_key k =
     takeWhile (\<lambda>c. c \<noteq> of_char (CHR ''#'') \<and> c \<noteq> of_char (CHR ''?''))
       (filter (\<lambda>c. c \<noteq> 9 \<and> c \<noteq> 10 \<and> c \<noteq> 13) k)"

text \<open>
  The client, as far as \<^verbatim>\<open>folders\<close> uses it: for a bucket and a prefix, the \<^verbatim>\<open>Prefix\<close> values
  of the \<^verbatim>\<open>CommonPrefixes\<close> that \<^verbatim>\<open>list_objects_v2\<close> returns with the delimiter \<^verbatim>\<open>'/'\<close>, in
  order. What \<^verbatim>\<open>_list_objects\<close> memoises is an answer of this client: the bucket does not
  change during a walk, and the memo holds no older answer when the walk begins.
\<close>

type_synonym s3_client = "pystr \<Rightarrow> pystr \<Rightarrow> pystr list"

datatype S3Path = S3Path (s3_bucket: pystr) (s3_key: pystr)

definition is_dir :: "S3Path \<Rightarrow> bool" where
  "is_dir p = (if s3_key p = [] then True else endswith (s3_key p) sep)"

definition is_file :: "S3Path \<Rightarrow> bool" where
  "is_file p = (\<not> is_dir p)"

definition depth :: "S3Path \<Rightarrow> nat" where
  "depth p = str_count (rstrip sep (s3_key p)) sep"

definition folders :: "s3_client \<Rightarrow> S3Path \<Rightarrow> S3Path gen" where
  "folders s3 p =
     (if is_file p then ([], Some NotADirectoryError)
      else (map (\<lambda>prefix. S3Path (s3_bucket p) (from_segments_key prefix))
              (s3 (s3_bucket p) (s3_key p)), None))"

text \<open>
  \<^verbatim>\<open>find_folders\<close> calls itself on every folder it yields, and nothing in the code bounds
  the nesting: a common prefix that \<^verbatim>\<open>urlparse\<close> cuts back to the key of the listed folder
  makes the walk list the same folder again without end. \<open>find_folders n\<close> is the walk with
  at most \<open>n\<close> nested calls: what it yields, and how it ends, \<open>Unfinished\<close> where a further
  nested call would be needed.
\<close>

datatype ending = Returned | Raised error | Unfinished

text \<open>
  \<open>find_folders_loop\<close> is the \<^verbatim>\<open>for folder in self.folders\<close> loop over the folders still to
  visit. A folder at \<open>max_depth\<close> or deeper ends the loop (\<^verbatim>\<open>break\<close>) before it is yielded.
\<close>

fun find_folders :: "nat \<Rightarrow> s3_client \<Rightarrow> S3Path \<Rightarrow> int \<Rightarrow> S3Path list \<times> ending"
  and find_folders_loop :: "nat \<Rightarrow> s3_client \<Rightarrow> S3Path list \<Rightarrow> int \<Rightarrow> S3Path list \<times> ending" where
  "find_folders 0 s3 p max_depth = ([], Unfinished)"
| "find_folders (Suc n) s3 p max_depth =
     (case folders s3 p of
        (fs, Some e) \<Rightarrow> ([], Raised e)
      | (fs, None) \<Rightarrow> find_folders_loop n s3 fs max_depth)"
| "find_folders_loop n s3 [] max_depth = ([], Returned)"
| "find_folders_loop n s3 (folder # rest) max_depth =
     (if max_depth \<le> int (depth folder) then ([], Returned)
      else
        (case find_folders n s3 folder max_depth of
           (ys, Returned) \<Rightarrow>
             (case find_folders_loop n s3 rest max_depth of
                (zs, r) \<Rightarrow> (folder # ys @ zs, r))
         | (ys, r) \<Rightarrow> (folder # ys, r)))"

section \<open>Access log objects and their dates\<close>

record ObjectSummary =
  key :: pystr
  obj_size :: int

record S3URI =
  uri_bucket :: pystr
  uri_key :: pystr

text \<open>
  Python's \<^verbatim>\<open>\d\<close> matches every Unicode decimal digit, and \<^verbatim>\<open>int\<close> reads each of them by its
  decimal value. Which characters these are is a table of the interpreter, not of this
  repository: the functions below take it as the argument \<open>decimal\<close>, the decimal value of
  a character that is a decimal digit.
\<close>

type_synonym decimal_table = "nat \<Rightarrow> nat option"

definition is_digit :: "decimal_table \<Rightarrow> nat \<Rightarrow> bool" where
  "is_digit decimal c = (decimal c \<noteq> None)"

definition digit_val :: "decimal_table \<Rightarrow> nat \<Rightarrow> nat" where
  "digit_val decimal c = (case decimal c of None \<Rightarrow> 0 | Some v \<Rightarrow> v)"

text \<open>
  The pattern of \<^verbatim>\<open>_is_access_log\<close>, \<^verbatim>\<open>\d{4}-\d{2}-\d{2}-\d{2}-\d{2}-\d{2}\<close>, is a sequence of
  one-character items; \<^verbatim>\<open>re.match\<close> anchors it at the start of the name only.
\<close>

datatype pattern_item = Digit | Lit nat

fun re_match :: "decimal_table \<Rightarrow> pattern_item list \<Rightarrow> pystr \<Rightarrow> bool" where
  "re_match decimal [] s = True"
| "re_match decimal (p # ps) [] = False"
| "re_match decimal (Digit # ps) (c # cs) = (is_digit decimal c \<and> re_match decimal ps cs)"
| "re_match decimal (Lit x # ps) (c # cs) = (c = x \<and> re_match decimal ps cs)"

definition datetime_pattern :: "pattern_item list" where
  "datetime_pattern =
     [Digit, Digit, Digit, Digit, Lit (of_char (CHR ''-'')), Digit, Digit, Lit (of_char (CHR ''-'')), Digit, Digit,
      Lit (of_char (CHR ''-'')), Digit, Digit, Lit (of_char (CHR ''-'')), Digit, Digit, Lit (of_char (CHR ''-'')), Digit, Digit]"

text \<open>\<^verbatim>\<open>_is_access_log\<close>, on the \<^verbatim>\<open>key\<close> of its argument.\<close>

definition is_access_log :: "decimal_table \<Rightarrow> pystr \<Rightarrow> bool" where
  "is_access_log decimal k =
     (let p = parse_path k;
          starts_with_datetime = re_match decimal datetime_pattern (name p);
          has_no_suffix = (suffix p = [])
      in if starts_with_datetime \<and> has_no_suffix then True else False)"

text \<open>
  \<^verbatim>\<open>datetime.date\<close>: a year from 1 to 9999, a month, and a day that month has.
\<close>

record date =
  year :: nat
  month :: nat
  day :: nat

definition is_leap :: "nat \<Rightarrow> bool" where
  "is_leap y = (y mod 4 = 0 \<and> (y mod 100 \<noteq> 0 \<or> y mod 400 = 0))"

definition days_in_month :: "nat \<Rightarrow> nat \<Rightarrow> nat" where
  "days_in_month y m =
     (if m = 2 then (if is_leap y then 29 else 28)
      else if m = 4 \<or> m = 6 \<or> m = 9 \<or> m = 11 then 30 else 31)"

definition make_date :: "nat \<Rightarrow> nat \<Rightarrow> nat \<Rightarrow> error + date" where
  "make_date y m d =
     (if 1 \<le> y \<and> y \<le> 9999 \<and> 1 \<le> m \<and> m \<le> 12 \<and> 1 \<le> d \<and> d \<le> days_in_month y m
      then Inr \<lparr>year = y, month = m, day = d\<rparr> else Inl ValueError)"

text \<open>\<^verbatim>\<open>a >= b\<close> on dates compares year, then month, then day.\<close>

definition date_ge :: "date \<Rightarrow> date \<Rightarrow> bool" where
  "date_ge a b =
     (year b < year a \<or> (year a = year b \<and> (month b < month a \<or> (month a = month b \<and> day b \<le> day a))))"

text \<open>
  \<^verbatim>\<open>strptime\<close> with the format \<^verbatim>\<open>'%Y-%m-%d'\<close> matches the regular expression
  \<^verbatim>\<open>(\d\d\d\d)-(1[0-2]|0[1-9]|[1-9])-(3[0-1]|[1-2]\d|0[1-9]|[1-9]| [1-9])\<close> at the start of
  the string. Each piece below returns its matches as (value, rest of the string), the
  alternatives in the order the backtracking matcher tries them.
\<close>

definition re_two :: "decimal_table \<Rightarrow> (nat \<Rightarrow> bool) \<Rightarrow> (nat \<Rightarrow> bool) \<Rightarrow> pystr \<Rightarrow> (nat \<times> pystr) list" where
  "re_two decimal P Q s =
     (case s of
        a # b # rest \<Rightarrow> if P a \<and> Q b then [(10 * digit_val decimal a + digit_val decimal b, rest)] else []
      | _ \<Rightarrow> [])"

definition re_one :: "decimal_table \<Rightarrow> (nat \<Rightarrow> bool) \<Rightarrow> pystr \<Rightarrow> (nat \<times> pystr) list" where
  "re_one decimal P s = (case s of a # rest \<Rightarrow> if P a then [(digit_val decimal a, rest)] else [] | _ \<Rightarrow> [])"

definition re_lit :: "nat \<Rightarrow> pystr \<Rightarrow> pystr list" where
  "re_lit c s = (case s of a # rest \<Rightarrow> if a = c then [rest] else [] | _ \<Rightarrow> [])"

definition re_Y :: "decimal_table \<Rightarrow> pystr \<Rightarrow> (nat \<times> pystr) list" where
  "re_Y decimal s =
     (case s of
        a # b # c # d # rest \<Rightarrow>
          if is_digit decimal a \<and> is_digit decimal b \<and> is_digit decimal c \<and> is_digit decimal d
          then [(1000 * digit_val decimal a + 100 * digit_val decimal b + 10 * digit_val decimal c + digit_val decimal d, rest)]
          else []
      | _ \<Rightarrow> [])"

definition re_m :: "decimal_table \<Rightarrow> pystr \<Rightarrow> (nat \<times> pystr) list" where
  "re_m decimal s =
     re_two decimal (\<lambda>c. c = of_char (CHR ''1'')) (\<lambda>c. c \<in> set (str ''012'')) s
     @ re_two decimal (\<lambda>c. c = of_char (CHR ''0'')) (\<lambda>c. c \<in> set (str ''123456789'')) s
     @ re_one decimal (\<lambda>c. c \<in> set (str ''123456789'')) s"

definition re_d :: "decimal_table \<Rightarrow> pystr \<Rightarrow> (nat \<times> pystr) list" where
  "re_d decimal s =
     re_two decimal (\<lambda>c. c = of_char (CHR ''3'')) (\<lambda>c. c \<in> set (str ''01'')) s
     @ re_two decimal (\<lambda>c. c \<in> set (str ''12'')) (is_digit decimal) s
     @ re_two decimal (\<lambda>c. c = of_char (CHR ''0'')) (\<lambda>c. c \<in> set (str ''123456789'')) s
     @ re_one decimal (\<lambda>c. c \<in> set (str ''123456789'')) s
     @ concat (map (re_one decimal (\<lambda>c. c \<in> set (str ''123456789''))) (re_lit (of_char (CHR '' '')) s))"

text \<open>The first match of the whole expression, with what is left of the string after it.\<close>

definition format_regex_match :: "decimal_table \<Rightarrow> pystr \<Rightarrow> ((nat \<times> nat \<times> nat) \<times> pystr) option" where
  "format_regex_match decimal s =
     (case [((y, m, d), r5).
              (y, r1) \<leftarrow> re_Y decimal s, r2 \<leftarrow> re_lit (of_char (CHR ''-'')) r1,
              (m, r3) \<leftarrow> re_m decimal r2, r4 \<leftarrow> re_lit (of_char (CHR ''-'')) r3,
              (d, r5) \<leftarrow> re_d decimal r4] of
        [] \<Rightarrow> None
      | x # _ \<Rightarrow> Some x)"

text \<open>
  \<^verbatim>\<open>datetime.strptime(s, '%Y-%m-%d').date()\<close>: \<^verbatim>\<open>ValueError\<close> when the expression does not
  match, when unconverted data remains after the match, and when the numbers are no date.
\<close>

definition strptime :: "decimal_table \<Rightarrow> pystr \<Rightarrow> error + date" where
  "strptime decimal s =
     (case format_regex_match decimal s of
        None \<Rightarrow> Inl ValueError
      | Some ((y, m, d), rest) \<Rightarrow> if rest \<noteq> [] then Inl ValueError else make_date y m d)"

text \<open>
  \<^verbatim>\<open>_date_getter\<close>; \<open>utc_today\<close> is what \<^verbatim>\<open>datetime.utcnow().date()\<close> returned.
\<close>

definition date_getter :: "decimal_table \<Rightarrow> date \<Rightarrow> ObjectSummary \<Rightarrow> error + pystr" where
  "date_getter decimal utc_today object_summary =
     (let date_text = take 10 (name (parse_path (key object_summary)))
      in case strptime decimal date_text of
           Inl e \<Rightarrow> Inl e
         | Inr date_obj \<Rightarrow> if date_ge date_obj utc_today then Inr [] else Inr date_text)"

section \<open>Grouping objects into tasks\<close>

text \<open>
  The loop of \<^verbatim>\<open>_group_objects\<close> over the objects after the first: what it yields, and the
  group it holds when the objects run out.
\<close>

fun group_loop ::
  "int \<Rightarrow> int \<Rightarrow> ObjectSummary list \<Rightarrow> int \<Rightarrow> ObjectSummary list
   \<Rightarrow> ObjectSummary list list \<times> ObjectSummary list" where
  "group_loop max_size max_items grp group_size [] = ([], grp)"
| "group_loop max_size max_items grp group_size (current # objects) =
     (if group_size + obj_size current \<le> max_size \<and> int (length grp) + 1 \<le> max_items
      then group_loop max_size max_items (grp @ [current]) (group_size + obj_size current) objects
      else
        (case group_loop max_size max_items [current] (obj_size current) objects of
           (yielded, last_group) \<Rightarrow> (grp # yielded, last_group)))"

text \<open>
  \<^verbatim>\<open>_group_objects\<close>. Its argument is an iterator: when that raises, the group held at that
  moment is never yielded. On an empty iterator \<^verbatim>\<open>next(objects)\<close> raises \<^verbatim>\<open>StopIteration\<close>
  inside the generator, which Python turns into \<^verbatim>\<open>RuntimeError\<close>.
\<close>

definition group_objects :: "ObjectSummary gen \<Rightarrow> int \<Rightarrow> int \<Rightarrow> ObjectSummary list gen" where
  "group_objects objects max_size max_items =
     (case objects of
        ([], None) \<Rightarrow> ([], Some RuntimeError)
      | ([], Some e) \<Rightarrow> ([], Some e)
      | (initial # rest, raised) \<Rightarrow>
          (case group_loop max_size max_items [initial] (obj_size initial) rest of
             (yielded, last_group) \<Rightarrow>
               (case raised of
                  None \<Rightarrow> (yielded @ [last_group], None)
                | Some e \<Rightarrow> (yielded, Some e))))"

text \<open>
  \<^verbatim>\<open>itertools.groupby\<close> with a key function that can raise. \<open>take_group\<close> reads the members
  of the group of key \<open>k\<close>: it stops at the first object of another key, at the end, or at
  the object on which the key function raises.
\<close>

fun take_group :: "('a \<Rightarrow> error + 'k) \<Rightarrow> 'k \<Rightarrow> 'a list \<Rightarrow> 'a list \<times> error option \<times> 'a list" where
  "take_group keyf k [] = ([], None, [])"
| "take_group keyf k (x # xs) =
     (case keyf x of
        Inl e \<Rightarrow> ([], Some e, x # xs)
      | Inr k' \<Rightarrow>
          if k' = k then (case take_group keyf k xs of (g, e, r) \<Rightarrow> (x # g, e, r))
          else ([], None, x # xs))"

lemma take_group_rest_length: "length (snd (snd (take_group keyf k xs))) \<le> length xs"
  by (induction xs) (auto split: sum.splits prod.splits)

text \<open>
  The groups in order, each with its key. When the key function raises, the groups end
  there: the exception comes out of the iteration of the last group, or of \<^verbatim>\<open>groupby\<close>
  itself when there is no group yet.
\<close>

function groupby :: "('a \<Rightarrow> error + 'k) \<Rightarrow> 'a list \<Rightarrow> ('k \<times> 'a list) gen" where
  "groupby keyf [] = ([], None)"
| "groupby keyf (x # xs) =
     (case keyf x of
        Inl e \<Rightarrow> ([], Some e)
      | Inr k \<Rightarrow>
          (case take_group keyf k xs of
             (g, Some e, r) \<Rightarrow> ([(k, x # g)], Some e)
           | (g, None, r) \<Rightarrow> (case groupby keyf r of (gs, e) \<Rightarrow> ((k, x # g) # gs, e))))"
  by pat_completeness auto
termination
proof (relation "measure (\<lambda>(keyf, xs). length xs)")
  show "wf (measure (\<lambda>(keyf, xs). length xs))" by simp
next
  fix keyf :: "'a \<Rightarrow> error + 'k" and x :: 'a and xs :: "'a list" and k x2 g y e r
  assume "(g, y) = take_group keyf k xs" "(e, r) = y"
  then have "r = snd (snd (take_group keyf k xs))"
    by (metis snd_conv)
  then have "length r \<le> length xs"
    by (simp add: take_group_rest_length)
  then show "((keyf, r), (keyf, x # xs)) \<in> measure (\<lambda>(keyf, xs). length xs)"
    by simp
qed

text \<open>
  \<^verbatim>\<open>_make_tasks\<close> for one prefix. \<open>objects_listing\<close> is what \<^verbatim>\<open>bucket.objects.filter(Prefix=prefix.key)\<close>
  enumerates and \<open>utc_today\<close> the date the clock shows during the enumeration.
  \<open>make_tasks_groups\<close> is the \<^verbatim>\<open>for date_str, _obj_group in itertools.groupby(...)\<close> loop:
  an exception of the key function reaches \<^verbatim>\<open>_group_objects\<close> through the last group.
\<close>

definition max_size_default :: int where
  "max_size_default = 1024 * 1024 * 1024 * 5"

definition max_items_default :: int where
  "max_items_default = 6000"

definition make_task :: "pystr \<Rightarrow> S3URI \<Rightarrow> ObjectSummary list \<Rightarrow> RollupTask" where
  "make_task role prefix obj_group =
     \<lparr>s3_role = role,
      bucket_name = uri_bucket prefix,
      common_prefix = rsplit1_head sep (uri_key prefix) @ [sep],
      basenames = map (\<lambda>obj. name (parse_path (key obj))) obj_group\<rparr>"

fun make_tasks_groups ::
  "pystr \<Rightarrow> S3URI \<Rightarrow> (pystr \<times> ObjectSummary list) list \<Rightarrow> error option \<Rightarrow> RollupTask gen" where
  "make_tasks_groups role prefix [] raised = ([], raised)"
| "make_tasks_groups role prefix ((date_key, obj_group) # groups) raised =
     (if date_key = [] then ([], None)
      else
        (case group_objects (obj_group, if groups = [] then raised else None)
                max_size_default max_items_default of
           (bins, Some e) \<Rightarrow> (map (make_task role prefix) bins, Some e)
         | (bins, None) \<Rightarrow>
             (case make_tasks_groups role prefix groups raised of
                (tasks, e) \<Rightarrow> (map (make_task role prefix) bins @ tasks, e))))"

definition make_tasks_prefix :: "decimal_table \<Rightarrow> date \<Rightarrow> pystr \<Rightarrow> S3URI \<Rightarrow> ObjectSummary list \<Rightarrow> RollupTask gen" where
  "make_tasks_prefix decimal utc_today role prefix objects_listing =
     (let objects = filter (\<lambda>obj. is_access_log decimal (key obj)) objects_listing
      in case groupby (date_getter decimal utc_today) objects of
           (groups, raised) \<Rightarrow> make_tasks_groups role prefix groups raised)"

section \<open>The scheduler\<close>

text \<open>
  The \<^verbatim>\<open>while active_task_makers\<close> loop of \<^verbatim>\<open>make_tasks\<close>. \<open>active\<close> is the deque, front
  first, and \<open>task_makers\<close> the makers not yet admitted; a maker is the generator of one
  prefix, reduced to what it has left to yield and how it ends. A task is yielded from the
  front maker, which then moves to the back (\<^verbatim>\<open>rotate(-1)\<close>); an exhausted front maker is
  dropped and the next pending one appended; an exception of the front maker ends the loop.
\<close>

function (sequential) make_tasks_loop :: "'a gen list \<Rightarrow> 'a gen list \<Rightarrow> 'a gen" where
  "make_tasks_loop [] task_makers = ([], None)"
| "make_tasks_loop ((t # ts, ending) # others) task_makers =
     (case make_tasks_loop (others @ [(ts, ending)]) task_makers of (ys, e) \<Rightarrow> (t # ys, e))"
| "make_tasks_loop (([], Some e) # others) task_makers = ([], Some e)"
| "make_tasks_loop (([], None) # others) [] = make_tasks_loop others []"
| "make_tasks_loop (([], None) # others) (m # task_makers) =
     make_tasks_loop (others @ [m]) task_makers"
  by pat_completeness auto
termination
  by (relation "measure (\<lambda>(active, task_makers).
        sum_list (map (\<lambda>m. Suc (length (fst m))) (active @ task_makers)))") auto

text \<open>
  \<^verbatim>\<open>make_tasks\<close>: the region check, then the loop over a window of the first 20 makers.
  \<open>location_constraint\<close> is the \<^verbatim>\<open>LocationConstraint\<close> of the bucket (\<open>None\<close> when absent or
  empty), \<open>region_name\<close> the region of the session, and \<open>task_makers\<close> the generators
  \<^verbatim>\<open>_make_tasks(s3_role, prefix)\<close> of the discovered prefixes, in order.
\<close>

definition make_tasks :: "pystr option \<Rightarrow> pystr \<Rightarrow> 'a gen list \<Rightarrow> 'a gen" where
  "make_tasks location_constraint region_name task_makers =
     (if (case location_constraint of None \<Rightarrow> (str ''us-east-1'') | Some l \<Rightarrow> l) \<noteq> region_name
      then ([], Some ValueError)
      else make_tasks_loop (take 20 task_makers) (drop 20 task_makers))"

section \<open>Queueing and deleting\<close>

text \<open>
  \<^verbatim>\<open>for x in xs: ...\<close> over a generator, where the body itself produces a sequence of
  effects and may raise: the effects in order, up to the first exception.
\<close>

fun for_each :: "'a list \<Rightarrow> error option \<Rightarrow> ('a \<Rightarrow> 'b gen) \<Rightarrow> 'b gen" where
  "for_each [] raised body = ([], raised)"
| "for_each (x # xs) raised body =
     (case body x of
        (ys, Some e) \<Rightarrow> (ys, Some e)
      | (ys, None) \<Rightarrow> (case for_each xs raised body of (zs, e) \<Rightarrow> (ys @ zs, e)))"

lemma for_each_cong [fundef_cong]:
  "xs = ys \<Longrightarrow> r = r' \<Longrightarrow> (\<And>x. x \<in> set ys \<Longrightarrow> f x = g x) \<Longrightarrow> for_each xs r f = for_each ys r' g"
  by (induction ys arbitrary: xs) auto

text \<open>Facts about the chunks of \<^verbatim>\<open>split\<close> that the termination proofs below need.\<close>

lemma py_slice_chunk:
  assumes "0 \<le> i" "0 < n"
  shows "py_slice xs i (i + n) = take (nat n) (drop (nat i) xs)"
proof (cases "nat i < length xs")
  case True
  have l: "clip_index (length xs) i = nat i"
    using assms True by (simp add: clip_index_def)
  have h: "clip_index (length xs) (i + n) = min (length xs) (nat i + nat n)"
    using assms by (simp add: clip_index_def nat_add_distrib)
  have "take (min (length xs) (nat i + nat n) - nat i) (drop (nat i) xs)
        = take (nat n) (drop (nat i) xs)"
  proof (cases "length xs \<le> nat i + nat n")
    case True
    then show ?thesis by (simp add: min_def)
  next
    case False
    then show ?thesis by (simp add: min_def)
  qed
  then show ?thesis by (simp add: py_slice_def Let_def l h)
next
  case False
  then show ?thesis using assms by (simp add: py_slice_def clip_index_def Let_def)
qed

lemma range_up_nonneg: "0 \<le> i \<Longrightarrow> j \<in> set (range_up i stop step) \<Longrightarrow> 0 \<le> j"
proof (induction i stop step rule: range_up.induct)
  case (1 i stop step)
  from 1(3) have "0 < step \<and> i < stop \<and> (j = i \<or> j \<in> set (range_up (i + step) stop step))"
    by (subst (asm) range_up.simps) (auto split: if_splits)
  then show ?case using 1(1,2) by auto
qed

lemma split_chunk_len:
  assumes "0 < n" "c \<in> set (fst (RollupTask_split task n))"
  shows "int (len c) \<le> n"
proof -
  from assms obtain i where i: "i \<in> set (range_up 0 (int (len task)) n)"
    and c: "c = task\<lparr>basenames := py_slice (basenames task) i (i + n)\<rparr>"
    by (auto simp: RollupTask_split_def py_range_def)
  have "0 \<le> i" using i by (rule range_up_nonneg[rotated]) simp
  then show ?thesis using assms(1) c by (simp add: len_def py_slice_chunk)
qed

text \<open>
  \<^verbatim>\<open>queue_tasks\<close>: what is sent to the queue, in order. The body of a message is the JSON
  of the four fields of a task, so a message is recorded as that task.
  \<^verbatim>\<open>print(f'Queuing task: {task}...')\<close> formats the task with \<^verbatim>\<open>__repr__\<close>, which reads
  \<^verbatim>\<open>date_str\<close> and so raises on a task without basenames, before anything is sent.
\<close>

function queue_tasks :: "RollupTask gen \<Rightarrow> RollupTask gen" where
  "queue_tasks (tasks, raised) =
     for_each tasks raised
       (\<lambda>task. if 6000 < len task then queue_tasks (RollupTask_split task 6000)
               else (case date_str task of Inl e \<Rightarrow> ([], Some e) | Inr _ \<Rightarrow> ([task], None)))"
  by pat_completeness auto
termination
proof (relation "measure (\<lambda>(tasks, raised). Max (insert 0 (len ` set tasks)))")
  show "wf (measure (\<lambda>(tasks, raised). Max (insert 0 (len ` set tasks))))" by simp
next
  fix tasks :: "RollupTask list" and raised :: "error option" and task :: RollupTask
  assume t: "task \<in> set tasks" and big: "6000 < len task"
  obtain chunks r where s: "RollupTask_split task 6000 = (chunks, r)" by (cases "RollupTask_split task 6000")
  have "\<forall>c \<in> set chunks. len c \<le> 6000"
    using split_chunk_len[of 6000 _ task] s by fastforce
  then have "Max (insert 0 (len ` set chunks)) \<le> 6000" by simp
  moreover have "len task \<le> Max (insert 0 (len ` set tasks))" using t by simp
  ultimately have "Max (insert 0 (len ` set chunks)) < Max (insert 0 (len ` set tasks))"
    using big by linarith
  then show "(RollupTask_split task 6000, (tasks, raised))
      \<in> measure (\<lambda>(tasks, raised). Max (insert 0 (len ` set tasks)))"
    by (simp only: s in_measure prod.case)
qed

text \<open>
  \<^verbatim>\<open>_delete_objects_in_task\<close>: the \<^verbatim>\<open>delete_objects\<close> calls it makes, each with its list of keys.
\<close>

function delete_objects_in_task :: "RollupTask \<Rightarrow> pystr list gen" where
  "delete_objects_in_task task =
     (if 1000 < len task then
        (case RollupTask_split task 1000 of
           (chunks, raised) \<Rightarrow> for_each chunks raised delete_objects_in_task)
      else ([object_keys task], None))"
  by pat_completeness auto
termination
proof (relation "measure len")
  show "wf (measure len)" by simp
next
  fix task :: RollupTask and chunks raised c
  assume big: "1000 < len task" and s: "(chunks, raised) = RollupTask_split task 1000"
    and c: "c \<in> set chunks"
  have "int (len c) \<le> 1000"
    using split_chunk_len[of 1000 c task] s[symmetric] c by simp
  then show "(c, task) \<in> measure len" using big by simp
qed

declare queue_tasks.simps [simp del] delete_objects_in_task.simps [simp del]

section \<open>Receiving tasks\<close>

text \<open>
  A received queue message. \<open>loads\<close> below stands for \<^verbatim>\<open>RollupTask(**json.loads(message.body))\<close>,
  which raises on a body that is not the JSON of a task.
\<close>

record Message =
  receipt_handle :: pystr
  body :: pystr

text \<open>
  What happens during one \<^verbatim>\<open>get_tasks\<close> call, as a trace: the generator yields the task
  of a message and deletes a message; its caller finishes a task or fails on it.
\<close>

datatype event = Yielded Message | Processed RollupTask | Failed RollupTask error | Deleted Message

text \<open>
  \<^verbatim>\<open>get_tasks\<close> is a generator, so it runs only when its caller asks for the next task. Its
  state between two requests: not started (holding the messages \<^verbatim>\<open>receive_messages\<close> will
  return), suspended at the \<^verbatim>\<open>yield\<close> of one message with the others still to come, or
  finished.
\<close>

datatype get_tasks_state = Not_started "Message list" | At_yield Message "Message list" | Finished

datatype 'a step = Yield 'a | Stop | Raise error

text \<open>
  The \<^verbatim>\<open>for message in messages\<close> loop from its head to the next \<^verbatim>\<open>yield\<close>. The
  \<^verbatim>\<open>print\<close> before the \<^verbatim>\<open>yield\<close> formats the task, which raises on a task without basenames.
\<close>

fun get_tasks_run ::
  "(pystr \<Rightarrow> error + RollupTask) \<Rightarrow> Message list \<Rightarrow> RollupTask step \<times> get_tasks_state \<times> event list" where
  "get_tasks_run loads [] = (Stop, Finished, [])"
| "get_tasks_run loads (message # messages) =
     (case loads (body message) of
        Inl e \<Rightarrow> (Raise e, Finished, [])
      | Inr task \<Rightarrow>
          (case date_str task of
             Inl e \<Rightarrow> (Raise e, Finished, [])
           | Inr _ \<Rightarrow> (Yield task, At_yield message messages, [Yielded message])))"

text \<open>
  One \<^verbatim>\<open>next()\<close> on the generator. Resumed at the \<^verbatim>\<open>yield\<close>, it first runs
  \<^verbatim>\<open>message.delete()\<close> for the message it yielded, then goes on with the loop.
\<close>

fun get_tasks_next ::
  "(pystr \<Rightarrow> error + RollupTask) \<Rightarrow> get_tasks_state \<Rightarrow> RollupTask step \<times> get_tasks_state \<times> event list" where
  "get_tasks_next loads (Not_started messages) = get_tasks_run loads messages"
| "get_tasks_next loads (At_yield message messages) =
     (case get_tasks_run loads messages of
        (r, st, evs) \<Rightarrow> (r, st, Deleted message # evs))"
| "get_tasks_next loads Finished = (Stop, Finished, [])"

text \<open>The messages a state still has to go through.\<close>

fun pending :: "get_tasks_state \<Rightarrow> nat" where
  "pending (Not_started messages) = Suc (length messages)"
| "pending (At_yield message messages) = Suc (length messages)"
| "pending Finished = 0"

lemma get_tasks_run_pending:
  "get_tasks_run loads messages = (Yield task, st, evs) \<Longrightarrow> pending st \<le> length messages"
  by (cases messages) (auto split: sum.splits)

lemma get_tasks_next_pending:
  "get_tasks_next loads st = (Yield task, st', evs) \<Longrightarrow> pending st' < pending st"
proof (cases st)
  case (Not_started messages)
  assume "get_tasks_next loads st = (Yield task, st', evs)"
  with Not_started show ?thesis using get_tasks_run_pending[of loads messages task st' evs] by simp
next
  case (At_yield message messages)
  assume "get_tasks_next loads st = (Yield task, st', evs)"
  with At_yield obtain evs' where "get_tasks_run loads messages = (Yield task, st', evs')"
    by (auto split: prod.splits)
  with At_yield show ?thesis using get_tasks_run_pending[of loads messages task st' evs'] by simp
next
  case Finished
  assume "get_tasks_next loads st = (Yield task, st', evs)"
  with Finished show ?thesis by simp
qed

text \<open>
  The worker loop of \<^verbatim>\<open>cli\<close>, \<^verbatim>\<open>for task in tasks: roller.do_task(task, args.delete)\<close>, from a
  state of the generator on: the trace, and the exception that ended the loop, if any.
  \<open>process\<close> is what the loop body does with a task. When it raises, the exception leaves
  the loop, and the generator, suspended at its \<^verbatim>\<open>yield\<close>, is never resumed.
\<close>

function worker_loop ::
  "(pystr \<Rightarrow> error + RollupTask) \<Rightarrow> (RollupTask \<Rightarrow> error + 'r) \<Rightarrow> get_tasks_state \<Rightarrow> event gen" where
  "worker_loop loads process st =
     (case get_tasks_next loads st of
        (Stop, st', evs) \<Rightarrow> (evs, None)
      | (Raise e, st', evs) \<Rightarrow> (evs, Some e)
      | (Yield task, st', evs) \<Rightarrow>
          (case process task of
             Inl e \<Rightarrow> (evs @ [Failed task e], Some e)
           | Inr _ \<Rightarrow>
               (case worker_loop loads process st' of
                  (evs', e) \<Rightarrow> (evs @ Processed task # evs', e))))"
  by pat_completeness auto
termination
proof (relation "measure (\<lambda>(loads, process, st). pending st)")
  show "wf (measure (\<lambda>(loads, process, st). pending st))" by simp
next
  fix loads :: "pystr \<Rightarrow> error + RollupTask" and process :: "RollupTask \<Rightarrow> error + 'r"
    and st x y task st' evs r
  assume "(x, y) = get_tasks_next loads st" "(st', evs) = y" "x = Yield task"
  then have "get_tasks_next loads st = (Yield task, st', evs)" by simp
  then have "pending st' < pending st" by (rule get_tasks_next_pending)
  then show "((loads, process, st'), (loads, process, st)) \<in> measure (\<lambda>(loads, process, st). pending st)"
    by simp
qed

declare worker_loop.simps [simp del]

definition worker :: "(pystr \<Rightarrow> error + RollupTask) \<Rightarrow> (RollupTask \<Rightarrow> error + 'r) \<Rightarrow> Message list \<Rightarrow> event gen" where
  "worker loads process messages = worker_loop loads process (Not_started messages)"

section \<open>The worker pipeline\<close>






section \<open>The split law\<close>

lemma ceiling_div_int:
  assumes n: "0 < (n::int)"
  shows "\<lceil>real_of_int a / real_of_int n\<rceil> = (a + n - 1) div n"
proof -
  define x where "x = a + n - 1"
  define c where "c = x div n"
  have eq: "c * n + x mod n = x" unfolding c_def by simp
  have m0: "0 \<le> x mod n" and m1: "x mod n < n" using n by simp_all
  have hi: "a \<le> c * n" using eq m1 unfolding x_def by linarith
  have lo: "(c - 1) * n < a" using eq m0 unfolding x_def by (simp add: algebra_simps)
  have "real_of_int c - 1 < real_of_int a / real_of_int n"
  proof -
    have "real_of_int ((c - 1) * n) < real_of_int a" using lo by linarith
    then show ?thesis using n by (simp add: field_simps)
  qed
  moreover have "real_of_int a / real_of_int n \<le> real_of_int c"
  proof -
    have "real_of_int a \<le> real_of_int (c * n)" using hi by linarith
    then show ?thesis using n by (simp add: field_simps)
  qed
  ultimately have "\<lceil>real_of_int a / real_of_int n\<rceil> = c" by (simp add: ceiling_eq_iff)
  then show ?thesis unfolding c_def x_def .
qed

lemma div_one_aux: "0 < (a::int) \<Longrightarrow> a < step \<Longrightarrow> (a + step - 1) div step = 1"
proof -
  assume a: "0 < a" "a < step"
  have "(a + step - 1) div step = ((a - 1) + step) div step" by (simp add: algebra_simps)
  also have "\<dots> = (a - 1) div step + 1" using a by (subst div_add_self2) auto
  also have "(a - 1) div step = 0" using a by simp
  finally show ?thesis by simp
qed

lemma range_up_length:
  "0 < step \<Longrightarrow> i \<le> stop \<Longrightarrow> int (length (range_up i stop step)) = (stop - i + step - 1) div step"
proof (induction i stop step rule: range_up.induct)
  case (1 i stop step)
  show ?case
  proof (cases "i < stop")
    case True
    note lt = this
    show ?thesis
    proof (cases "i + step \<le> stop")
      case True
      have "(stop - i + step - 1) div step = ((stop - (i + step) + step - 1) + step) div step"
        by (simp add: algebra_simps)
      also have "\<dots> = (stop - (i + step) + step - 1) div step + 1"
        using 1(2) by (subst div_add_self2) auto
      finally have e: "(stop - i + step - 1) div step = (stop - (i + step) + step - 1) div step + 1" .
      have "int (length (range_up (i + step) stop step)) = (stop - (i + step) + step - 1) div step"
        using 1 lt True by simp
      then show ?thesis using lt 1(2) e by (subst range_up.simps) simp
    next
      case False
      have "range_up (i + step) stop step = []" using False by (subst range_up.simps) simp
      moreover have "(stop - i + step - 1) div step = 1"
        using False lt 1(2) by (intro div_one_aux) auto
      ultimately show ?thesis using lt 1(2) by (subst range_up.simps) simp
    qed
  next
    case False
    then have "i = stop" using 1 by simp
    then show ?thesis using 1(2) by (subst range_up.simps) simp
  qed
qed



lemma concat_chunks:
  "0 < n \<Longrightarrow> 0 \<le> i \<Longrightarrow>
   concat (map (\<lambda>j. py_slice xs j (j + n)) (range_up i (int (length xs)) n)) = drop (nat i) xs"
proof (induction i "int (length xs)" n rule: range_up.induct)
  case (1 i step)
  show ?case
  proof (cases "i < int (length xs)")
    case True
    have d: "drop (nat (i + step)) xs = drop (nat step) (drop (nat i) xs)"
      using 1(2,3) by (simp add: nat_add_distrib add.commute)
    have ih: "concat (map (\<lambda>j. py_slice xs j (j + step)) (range_up (i + step) (int (length xs)) step))
          = drop (nat (i + step)) xs"
      using 1 True by simp
    have "concat (map (\<lambda>j. py_slice xs j (j + step)) (range_up i (int (length xs)) step))
          = py_slice xs i (i + step)
            @ concat (map (\<lambda>j. py_slice xs j (j + step)) (range_up (i + step) (int (length xs)) step))"
      using True 1(2) by (subst range_up.simps) simp
    also have "\<dots> = take (nat step) (drop (nat i) xs) @ drop (nat step) (drop (nat i) xs)"
      using 1(2,3) by (simp only: ih d py_slice_chunk)
    finally show ?thesis by (simp only: append_take_drop_id)
  next
    case False
    then show ?thesis using 1(2,3) by (subst range_up.simps) simp
  qed
qed


lemma split_eq:
  "0 < n \<Longrightarrow> RollupTask_split task n =
     (map (\<lambda>i. task\<lparr>basenames := py_slice (basenames task) i (i + n)\<rparr>)
        (range_up 0 (int (len task)) n), None)"
  by (simp add: RollupTask_split_def py_range_def)

lemma split_count:
  assumes "0 < n"
  shows "int (length (fst (RollupTask_split task n))) = \<lceil>real (len task) / real_of_int n\<rceil>"
proof -
  have "int (length (fst (RollupTask_split task n))) = (int (len task) - 0 + n - 1) div n"
    using assms range_up_length[of n 0 "int (len task)"] by (simp add: split_eq)
  also have "\<dots> = \<lceil>real_of_int (int (len task)) / real_of_int n\<rceil>"
    using assms ceiling_div_int[of n "int (len task)"] by simp
  finally show ?thesis by simp
qed

lemma split_concat:
  assumes "0 < n"
  shows "concat (map basenames (fst (RollupTask_split task n))) = basenames task"
proof -
  have "concat (map basenames (fst (RollupTask_split task n)))
        = concat (map (\<lambda>j. py_slice (basenames task) j (j + n)) (range_up 0 (int (length (basenames task))) n))"
    using assms by (simp add: split_eq len_def comp_def)
  also have "\<dots> = drop (nat 0) (basenames task)"
    using assms by (rule concat_chunks) simp
  finally show ?thesis by simp
qed

lemma split_fields:
  "c \<in> set (fst (RollupTask_split task n)) \<Longrightarrow>
   s3_role c = s3_role task \<and> bucket_name c = bucket_name task \<and> common_prefix c = common_prefix task"
  by (auto simp: RollupTask_split_def py_range_def split: if_splits)

lemma split_8:
  assumes "len task = 8"
  shows "map len (fst (RollupTask_split task 2)) = [2, 2, 2, 2]"
    and "map len (fst (RollupTask_split task 4)) = [4, 4]"
    and "map len (fst (RollupTask_split task 99)) = [8]"
  using assms
  by (simp_all add: split_eq range_up.simps len_def py_slice_def clip_index_def Let_def)

text \<open>
  C5. For every task and every \<open>n > 0\<close>, \<^verbatim>\<open>task.split(n)\<close> raises nothing and yields
  exactly \<open>ceil(len(task) / n)\<close> chunks; every chunk has the role, bucket and common prefix
  of the task and at most \<open>n\<close> basenames; the basenames of the chunks, concatenated in order,
  are the basenames of the task. A task of 8 basenames is split by 2 into 4 chunks of 2, by
  4 into 2 chunks of 4, and by 99 into 1 chunk of 8.
\<close>

theorem split_law:
  "0 < n \<Longrightarrow>
     (\<exists>chunks. RollupTask_split task n = (chunks, None)
        \<and> int (length chunks) = \<lceil>real (len task) / real_of_int n\<rceil>
        \<and> (\<forall>c \<in> set chunks.
              s3_role c = s3_role task \<and> bucket_name c = bucket_name task
              \<and> common_prefix c = common_prefix task \<and> int (len c) \<le> n)
        \<and> concat (map basenames chunks) = basenames task)
     \<and> (len task = 8 \<longrightarrow>
          map len (fst (RollupTask_split task 2)) = [2, 2, 2, 2]
          \<and> map len (fst (RollupTask_split task 4)) = [4, 4]
          \<and> map len (fst (RollupTask_split task 99)) = [8])"
proof -
  assume n: "0 < n"
  obtain chunks where c: "RollupTask_split task n = (chunks, None)"
    using n by (simp add: split_eq)
  have "int (length chunks) = \<lceil>real (len task) / real_of_int n\<rceil>"
    using split_count[OF n, of task] c by simp
  moreover have "\<forall>c \<in> set chunks.
              s3_role c = s3_role task \<and> bucket_name c = bucket_name task
              \<and> common_prefix c = common_prefix task \<and> int (len c) \<le> n"
    using split_fields[of _ task n] split_chunk_len[OF n, of _ task] c by simp
  moreover have "concat (map basenames chunks) = basenames task"
    using split_concat[OF n, of task] c by simp
  ultimately show ?thesis using c split_8[of task] by blast
qed

theorem split_law_witness:
  "(0::int) < 2 \<and> len test_task = 8
   \<and> (\<exists>chunks. RollupTask_split test_task 2 = (chunks, None) \<and> int (length chunks) = 4
         \<and> (\<forall>c \<in> set chunks. int (len c) \<le> 2)
         \<and> concat (map basenames chunks) = basenames test_task)
   \<and> map len (fst (RollupTask_split test_task 2)) = [2, 2, 2, 2]"
proof -
  have l: "len test_task = 8" by (simp add: len_def test_task_def)
  have "\<lceil>real (len test_task) / real_of_int 2\<rceil> = 4" by (simp add: l)
  then show ?thesis using split_law[of 2 test_task] l by auto
qed

section \<open>Derived keys of a task without basenames\<close>

text \<open>The task of \<^verbatim>\<open>test_empty_list\<close> in \<^verbatim>\<open>main_test.py\<close>.\<close>

definition empty_task :: RollupTask where
  "empty_task =
     \<lparr>s3_role = (str ''arn:aws:iam::123456789012:role/s3-rollup-bucket-access''),
      bucket_name = (str ''bucket2''), common_prefix = [], basenames = []\<rparr>"

text \<open>
  C8, as stated, fails for \<^verbatim>\<open>object_keys\<close>: on the task without basenames of the test
  suite it raises nothing and returns the empty list.
\<close>

theorem derived_keys_counterexample:
  "basenames empty_task = [] \<and> object_keys empty_task = []"
  by (simp add: empty_task_def object_keys_def)

text \<open>
  C8, amended. For every task without basenames, \<^verbatim>\<open>date_str\<close> and \<^verbatim>\<open>tarball_key\<close> raise
  \<^verbatim>\<open>ValueError\<close>, whatever the random token, and \<^verbatim>\<open>object_keys\<close> is the empty list.
\<close>

theorem derived_keys_of_empty_task:
  "basenames task = [] \<Longrightarrow>
     date_str task = Inl ValueError \<and> tarball_key random_str task = Inl ValueError
     \<and> object_keys task = []"
  by (simp add: date_str_def tarball_key_def object_keys_def)

theorem derived_keys_of_empty_task_witness:
  "basenames empty_task = [] \<and> date_str empty_task = Inl ValueError
   \<and> tarball_key (str ''0a1b2c3d'') empty_task = Inl ValueError \<and> object_keys empty_task = []"
proof -
  have "basenames empty_task = []" by (simp add: empty_task_def)
  then show ?thesis using derived_keys_of_empty_task[of empty_task "(str ''0a1b2c3d'')"] by simp
qed

section \<open>Bin-packing\<close>

text \<open>What C2 asks of one bin.\<close>

definition bin_ok :: "int \<Rightarrow> int \<Rightarrow> ObjectSummary list \<Rightarrow> bool" where
  "bin_ok max_size max_items bin =
     ((sum_list (map obj_size bin) \<le> max_size \<or> length bin = 1) \<and> int (length bin) \<le> max_items)"

lemma group_loop_bins:
  assumes "0 < max_items"
    and "group_size = sum_list (map obj_size grp)"
    and "bin_ok max_size max_items grp"
    and "group_loop max_size max_items grp group_size objects = (yielded, last_group)"
  shows "(\<forall>b \<in> set yielded. bin_ok max_size max_items b) \<and> bin_ok max_size max_items last_group
         \<and> concat yielded @ last_group = grp @ objects"
  using assms
proof (induction objects arbitrary: grp group_size yielded last_group)
  case Nil
  then show ?case by simp
next
  case (Cons current objects)
  show ?case
  proof (cases "group_size + obj_size current \<le> max_size \<and> int (length grp) + 1 \<le> max_items")
    case True
    have ok: "bin_ok max_size max_items (grp @ [current])"
      using True Cons.prems(2) by (simp add: bin_ok_def)
    have run: "group_loop max_size max_items (grp @ [current]) (group_size + obj_size current) objects
               = (yielded, last_group)"
      using Cons.prems(4) True by simp
    have "group_size + obj_size current = sum_list (map obj_size (grp @ [current]))"
      using Cons.prems(2) by simp
    from Cons.IH[OF Cons.prems(1) this ok run] show ?thesis by simp
  next
    case False
    obtain ys g where run: "group_loop max_size max_items [current] (obj_size current) objects = (ys, g)"
      by (cases "group_loop max_size max_items [current] (obj_size current) objects")
    have res: "yielded = grp # ys" "last_group = g"
      using Cons.prems(4) False run by auto
    have ok: "bin_ok max_size max_items [current]"
      using Cons.prems(1) by (simp add: bin_ok_def)
    have "obj_size current = sum_list (map obj_size [current])" by simp
    from Cons.IH[OF Cons.prems(1) this ok run] show ?thesis
      using res Cons.prems(3) by simp
  qed
qed

lemma group_objects_bins:
  assumes "0 < max_items"
    and "group_objects (objects, None) max_size max_items = (bins, raised)"
  shows "(\<forall>b \<in> set bins. bin_ok max_size max_items b) \<and> concat bins = objects
         \<and> (raised = None \<longleftrightarrow> objects \<noteq> [])"
proof (cases objects)
  case Nil
  then show ?thesis using assms(2) by (auto simp: group_objects_def)
next
  case (Cons initial rest)
  obtain ys g where run: "group_loop max_size max_items [initial] (obj_size initial) rest = (ys, g)"
    by (cases "group_loop max_size max_items [initial] (obj_size initial) rest")
  have res: "bins = ys @ [g]" "raised = None"
    using assms(2) Cons run by (auto simp: group_objects_def)
  have ok: "bin_ok max_size max_items [initial]"
    using assms(1) by (simp add: bin_ok_def)
  have "obj_size initial = sum_list (map obj_size [initial])" by simp
  from group_loop_bins[OF assms(1) this ok run] show ?thesis
    using res Cons by simp
qed

lemma group_objects_scenario:
  assumes "map obj_size objects = [5, 8, 3, 3, 4]"
  shows "map (map obj_size) (fst (group_objects (objects, None) 10 999)) = [[5], [8], [3, 3, 4]]"
proof -
  from assms obtain a b c d e where "objects = [a, b, c, d, e]"
    and "obj_size a = 5" "obj_size b = 8" "obj_size c = 3" "obj_size d = 3" "obj_size e = 4"
    by (auto simp: map_eq_Cons_conv)
  then show ?thesis by (simp add: group_objects_def)
qed

text \<open>
  C2. For every sequence of objects and every \<open>max_items > 0\<close> (and every \<open>max_size\<close>),
  every bin of \<^verbatim>\<open>_group_objects\<close> has a total size of at most \<open>max_size\<close> or is a single
  object, and has at most \<open>max_items\<close> objects; the bins, concatenated in order, are the
  input; the generator raises only on the empty sequence, which has no bin. Objects of
  sizes 5, 8, 3, 3, 4 with \<open>max_size = 10\<close> and \<open>max_items = 999\<close> give bins of sizes
  \<open>[[5], [8], [3, 3, 4]]\<close>.
\<close>

theorem group_objects_law:
  "0 < max_items \<Longrightarrow>
     (\<forall>b \<in> set (fst (group_objects (objects, None) max_size max_items)).
         (sum_list (map obj_size b) \<le> max_size \<or> length b = 1) \<and> int (length b) \<le> max_items)
     \<and> concat (fst (group_objects (objects, None) max_size max_items)) = objects
     \<and> (snd (group_objects (objects, None) max_size max_items) = None \<longleftrightarrow> objects \<noteq> [])
     \<and> (map obj_size objects = [5, 8, 3, 3, 4] \<longrightarrow>
          map (map obj_size) (fst (group_objects (objects, None) 10 999)) = [[5], [8], [3, 3, 4]])"
proof -
  assume mi: "0 < max_items"
  obtain bins raised where r: "group_objects (objects, None) max_size max_items = (bins, raised)"
    by (cases "group_objects (objects, None) max_size max_items")
  from group_objects_bins[OF mi r] group_objects_scenario[of objects] r
  show ?thesis by (simp add: bin_ok_def)
qed

text \<open>The objects of \<^verbatim>\<open>test_group_objects_by_total_size\<close>, with keys to tell them apart.\<close>

definition test_objects :: "ObjectSummary list" where
  "test_objects =
     [\<lparr>key = (str ''obj1''), obj_size = 5\<rparr>, \<lparr>key = (str ''obj2''), obj_size = 8\<rparr>,
      \<lparr>key = (str ''obj3''), obj_size = 3\<rparr>, \<lparr>key = (str ''obj4''), obj_size = 3\<rparr>,
      \<lparr>key = (str ''obj5''), obj_size = 4\<rparr>]"

theorem group_objects_law_witness:
  "(0::int) < 999 \<and> map obj_size test_objects = [5, 8, 3, 3, 4]
   \<and> map (map key) (fst (group_objects (test_objects, None) 10 999))
       = [[(str ''obj1'')], [(str ''obj2'')], [(str ''obj3''), (str ''obj4''), (str ''obj5'')]]
   \<and> map (map obj_size) (fst (group_objects (test_objects, None) 10 999)) = [[5], [8], [3, 3, 4]]
   \<and> list_all (\<lambda>b. (sum_list (map obj_size b) \<le> 10 \<or> length b = 1) \<and> int (length b) \<le> 999)
        (fst (group_objects (test_objects, None) 10 999))
   \<and> concat (fst (group_objects (test_objects, None) 10 999)) = test_objects
   \<and> snd (group_objects (test_objects, None) 10 999) = None"
proof -
  have s: "map obj_size test_objects = [5, 8, 3, 3, 4]" by (simp add: test_objects_def)
  have k: "map (map key) (fst (group_objects (test_objects, None) 10 999))
       = [[(str ''obj1'')], [(str ''obj2'')], [(str ''obj3''), (str ''obj4''), (str ''obj5'')]]"
    by (simp add: test_objects_def group_objects_def)
  have n: "test_objects \<noteq> []" by (simp add: test_objects_def)
  have "(0::int) < 999" by simp
  from group_objects_law[OF this, of test_objects 10] s k n show ?thesis
    by (simp add: list_all_iff)
qed

section \<open>Fairness of the scheduler\<close>

text \<open>
  To follow where a scheduled task comes from, every task of the maker at position \<open>i\<close> of
  the prefix sequence is paired with \<open>i\<close>. The scheduler never looks into a task, so this
  changes nothing of the schedule (\<open>make_tasks_origins\<close> below).
\<close>

definition map_gen :: "('a \<Rightarrow> 'b) \<Rightarrow> 'a gen \<Rightarrow> 'b gen" where
  "map_gen f g = (map f (fst g), snd g)"

definition with_origins :: "'a gen list \<Rightarrow> (nat \<times> 'a) gen list" where
  "with_origins task_makers = map (\<lambda>(i, m). map_gen (Pair i) m) (enumerate 0 task_makers)"

lemma make_tasks_loop_map:
  "make_tasks_loop (map (map_gen f) active) (map (map_gen f) task_makers)
   = map_gen f (make_tasks_loop active task_makers)"
proof (induction active task_makers rule: make_tasks_loop.induct)
  case (1 task_makers)
  then show ?case by (simp add: map_gen_def)
next
  case (2 t ts ending others task_makers)
  then show ?case by (simp add: map_gen_def split: prod.splits)
next
  case (3 e others task_makers)
  then show ?case by (simp add: map_gen_def)
next
  case (4 others)
  then show ?case by (simp add: map_gen_def)
next
  case (5 others m task_makers)
  then show ?case by (simp add: map_gen_def)
qed

lemma with_origins_map: "map (map_gen snd) (with_origins task_makers) = task_makers"
proof -
  have "map (map_gen snd) (with_origins task_makers) = map snd (enumerate 0 task_makers)"
    by (simp add: with_origins_def map_gen_def comp_def case_prod_beta)
  then show ?thesis by simp
qed

lemma make_tasks_origins:
  "map snd (fst (make_tasks location_constraint region_name (with_origins task_makers)))
   = fst (make_tasks location_constraint region_name task_makers)"
proof -
  let ?ms = "with_origins task_makers"
  have "make_tasks_loop (take 20 task_makers) (drop 20 task_makers)
        = make_tasks_loop (map (map_gen snd) (take 20 ?ms)) (map (map_gen snd) (drop 20 ?ms))"
    by (simp add: with_origins_map flip: take_map drop_map)
  also have "\<dots> = map_gen snd (make_tasks_loop (take 20 ?ms) (drop 20 ?ms))"
    by (rule make_tasks_loop_map)
  finally show ?thesis by (simp add: make_tasks_def map_gen_def)
qed

lemma make_tasks_loop_first:
  "k \<le> length active \<Longrightarrow> \<forall>m \<in> set (take k active). fst m \<noteq> [] \<Longrightarrow>
   take k (fst (make_tasks_loop active task_makers)) = map (\<lambda>m. hd (fst m)) (take k active)"
proof (induction k arbitrary: active)
  case 0
  then show ?case by simp
next
  case (Suc k)
  then obtain m others where a: "active = m # others" by (cases active) auto
  obtain ts ending where m: "m = (ts, ending)" by (cases m)
  from Suc.prems(2) a m obtain t ts' where ts: "ts = t # ts'" by (cases ts) auto
  have k: "k \<le> length others" using Suc.prems(1) a by simp
  have "take k (others @ [(ts', ending)]) = take k others" using k by simp
  moreover have "\<forall>m \<in> set (take k others). fst m \<noteq> []" using Suc.prems(2) a by simp
  ultimately have ih: "take k (fst (make_tasks_loop (others @ [(ts', ending)]) task_makers))
      = map (\<lambda>m. hd (fst m)) (take k others)"
    using Suc.IH[of "others @ [(ts', ending)]"] k by simp
  show ?case using ih by (simp add: a m ts case_prod_beta)
qed

lemma with_origins_take:
  "k \<le> length task_makers \<Longrightarrow> \<forall>m \<in> set (take k task_makers). fst m \<noteq> [] \<Longrightarrow>
   map (\<lambda>m. fst (hd (fst m))) (take k (with_origins task_makers)) = [0..<k]"
proof -
  assume k: "k \<le> length task_makers" and ne: "\<forall>m \<in> set (take k task_makers). fst m \<noteq> []"
  show ?thesis
  proof (rule nth_equalityI)
    show "length (map (\<lambda>m. fst (hd (fst m))) (take k (with_origins task_makers))) = length [0..<k]"
      using k by (simp add: with_origins_def)
  next
    fix i assume "i < length (map (\<lambda>m. fst (hd (fst m))) (take k (with_origins task_makers)))"
    then have i: "i < k" by simp
    then have il: "i < length task_makers" using k by simp
    have "task_makers ! i \<in> set (take k task_makers)"
      using i il by (metis in_set_conv_nth length_take min.absorb2 k nth_take)
    then have "fst (task_makers ! i) \<noteq> []" using ne by blast
    then show "map (\<lambda>m. fst (hd (fst m))) (take k (with_origins task_makers)) ! i = [0..<k] ! i"
      using i il k by (simp add: with_origins_def map_gen_def nth_enumerate_eq hd_map)
  qed
qed

text \<open>
  C3. When the bucket is in the session's region, \<open>k\<close> prefixes are in the window of 20
  at the start and each of these \<open>k\<close> yields at least one task, then the first \<open>k\<close> tasks
  that \<^verbatim>\<open>make_tasks\<close> yields come from the prefixes \<open>0, ..., k - 1\<close>, one from each: from \<open>k\<close>
  distinct prefixes. The origins are read off a run on makers tagged with their position,
  whose schedule is that of the untagged run.
\<close>

theorem make_tasks_fair:
  assumes "(case location_constraint of None \<Rightarrow> (str ''us-east-1'') | Some l \<Rightarrow> l) = region_name"
    and "k \<le> 20" and "k \<le> length task_makers"
    and "\<forall>m \<in> set (take k task_makers). fst m \<noteq> []"
  shows "map fst (take k (fst (make_tasks location_constraint region_name (with_origins task_makers))))
           = [0..<k]
         \<and> distinct (map fst (take k (fst (make_tasks location_constraint region_name
                                           (with_origins task_makers)))))
         \<and> map snd (fst (make_tasks location_constraint region_name (with_origins task_makers)))
           = fst (make_tasks location_constraint region_name task_makers)"
proof -
  let ?ms = "with_origins task_makers"
  have len: "length ?ms = length task_makers" by (simp add: with_origins_def)
  have tk: "take k (take 20 ?ms) = take k ?ms" using assms(2) by (simp add: min_def)
  have ne: "\<forall>m \<in> set (take k (take 20 ?ms)). fst m \<noteq> []"
  proof
    fix m assume "m \<in> set (take k (take 20 ?ms))"
    then have "m \<in> set (take k ?ms)" using tk by simp
    then obtain i where i: "i < k" "i < length ?ms" "m = ?ms ! i"
      by (auto simp: in_set_conv_nth)
    have "task_makers ! i \<in> set (take k task_makers)"
      using i len assms(3) by (metis in_set_conv_nth length_take min.absorb2 nth_take)
    then have "fst (task_makers ! i) \<noteq> []" using assms(4) by blast
    then show "fst m \<noteq> []" using i len by (simp add: with_origins_def map_gen_def nth_enumerate_eq)
  qed
  have "k \<le> length (take 20 ?ms)" using assms(2,3) len by simp
  from make_tasks_loop_first[OF this ne, of "drop 20 ?ms"]
  have "take k (fst (make_tasks location_constraint region_name ?ms))
        = map (\<lambda>m. hd (fst m)) (take k ?ms)"
    using assms(1) tk by (simp add: make_tasks_def)
  then have "map fst (take k (fst (make_tasks location_constraint region_name ?ms)))
        = map (\<lambda>m. fst (hd (fst m))) (take k ?ms)"
    by (simp add: comp_def)
  also have "\<dots> = [0..<k]" using assms(3,4) by (rule with_origins_take)
  finally have e: "map fst (take k (fst (make_tasks location_constraint region_name ?ms))) = [0..<k]" .
  then have "distinct (map fst (take k (fst (make_tasks location_constraint region_name ?ms))))"
    by simp
  with e make_tasks_origins[of location_constraint region_name task_makers] show ?thesis by blast
qed

text \<open>Three prefixes with two, one and three tasks, the tasks named by letters.\<close>

definition three_makers :: "pystr gen list" where
  "three_makers = [([(str ''a1''), (str ''a2'')], None), ([(str ''b1'')], None), ([(str ''c1''), (str ''c2''), (str ''c3'')], None)]"

theorem make_tasks_fair_witness:
  "(3::nat) \<le> 20 \<and> 3 \<le> length three_makers
   \<and> list_all (\<lambda>m. fst m \<noteq> []) (take 3 three_makers)
   \<and> fst (make_tasks None (str ''us-east-1'') three_makers) = [(str ''a1''), (str ''b1''), (str ''c1''), (str ''a2''), (str ''c2''), (str ''c3'')]
   \<and> map fst (take 3 (fst (make_tasks None (str ''us-east-1'') (with_origins three_makers)))) = [0, 1, 2]
   \<and> distinct (map fst (take 3 (fst (make_tasks None (str ''us-east-1'') (with_origins three_makers)))))"
proof -
  have a: "(case None of None \<Rightarrow> (str ''us-east-1'') | Some l \<Rightarrow> l) = (str ''us-east-1'')" by simp
  have b: "(3::nat) \<le> 20" by simp
  have c: "3 \<le> length three_makers" by (simp add: three_makers_def)
  have d: "\<forall>m \<in> set (take 3 three_makers). fst m \<noteq> []" by (simp add: three_makers_def)
  have e: "fst (make_tasks None (str ''us-east-1'') three_makers) = [(str ''a1''), (str ''b1''), (str ''c1''), (str ''a2''), (str ''c2''), (str ''c3'')]"
    by (simp add: make_tasks_def three_makers_def)
  have f: "[0..<3] = [0, 1, 2]" by (simp add: upt_rec)
  from make_tasks_fair[OF a b c d] b c d e f show ?thesis by (simp add: list_all_iff)
qed

section \<open>Finding folders\<close>










text \<open>A walk that has ended stays what it is when more nested calls are allowed.\<close>

lemma find_folders_more:
  "snd (find_folders n s3 p max_depth) \<noteq> Unfinished \<Longrightarrow>
     find_folders (Suc n) s3 p max_depth = find_folders n s3 p max_depth"
  "snd (find_folders_loop n s3 fs max_depth) \<noteq> Unfinished \<Longrightarrow>
     find_folders_loop (Suc n) s3 fs max_depth = find_folders_loop n s3 fs max_depth"
proof (induction n s3 p max_depth and n s3 fs max_depth rule: find_folders_find_folders_loop.induct)
  case (1 s3 p max_depth)
  then show ?case by simp
next
  case (2 n s3 p max_depth)
  obtain fs e where f: "folders s3 p = (fs, e)" by (cases "folders s3 p")
  show ?case
  proof (cases e)
    case None
    with 2 f show ?thesis by simp
  next
    case (Some err)
    with f show ?thesis by simp
  qed
next
  case (3 n s3 max_depth)
  then show ?case by simp
next
  case (4 n s3 folder rest max_depth)
  show ?case
  proof (cases "max_depth \<le> int (depth folder)")
    case True
    then show ?thesis by simp
  next
    case False
    obtain ys r where ff: "find_folders n s3 folder max_depth = (ys, r)"
      by (cases "find_folders n s3 folder max_depth")
    show ?thesis
    proof (cases r)
      case Returned
      obtain zs r' where fl: "find_folders_loop n s3 rest max_depth = (zs, r')"
        by (cases "find_folders_loop n s3 rest max_depth")
      have r': "r' \<noteq> Unfinished" using 4(3) False ff Returned fl by simp
      have a: "find_folders (Suc n) s3 folder max_depth = (ys, Returned)"
        using 4(1)[OF False] ff Returned by simp
      have b: "find_folders_loop (Suc n) s3 rest max_depth = (zs, r')"
        using 4(2)[OF False ff[symmetric] Returned] fl r' by simp
      show ?thesis
        using False ff Returned fl a b
        by (simp only: find_folders_loop.simps if_False prod.case ending.case)
    next
      case (Raised err)
      have a: "find_folders (Suc n) s3 folder max_depth = (ys, Raised err)"
        using 4(1)[OF False] ff Raised by simp
      show ?thesis
        using False ff Raised a
        by (simp only: find_folders_loop.simps if_False prod.case ending.case)
    next
      case Unfinished
      with 4(3) False ff show ?thesis by simp
    qed
  qed
qed



























section \<open>The date filter\<close>

lemma take_group_props:
  "take_group keyf k xs = (g, e, r) \<Longrightarrow> (\<forall>x \<in> set g. keyf x = Inr k) \<and> xs = g @ r"
proof (induction xs arbitrary: g e r)
  case Nil
  then show ?case by simp
next
  case (Cons x xs)
  show ?case
  proof (cases "keyf x")
    case (Inl err)
    then show ?thesis using Cons.prems by simp
  next
    case (Inr k')
    show ?thesis
    proof (cases "k' = k")
      case True
      obtain g' e' r' where t: "take_group keyf k xs = (g', e', r')"
        by (cases "take_group keyf k xs")
      from Cons.IH[OF t] Cons.prems Inr True t show ?thesis by auto
    next
      case False
      then show ?thesis using Cons.prems Inr by simp
    qed
  qed
qed

lemma groupby_members:
  "groupby keyf xs = (groups, raised) \<Longrightarrow> (k, g) \<in> set groups \<Longrightarrow>
   g \<noteq> [] \<and> (\<forall>x \<in> set g. keyf x = Inr k) \<and> set g \<subseteq> set xs"
proof (induction keyf xs arbitrary: groups raised rule: groupby.induct)
  case (1 keyf)
  then show ?case by simp
next
  case (2 keyf x xs)
  show ?case
  proof (cases "keyf x")
    case (Inl err)
    then show ?thesis using 2(2,3) by simp
  next
    case (Inr k0)
    obtain g0 e r where t: "take_group keyf k0 xs = (g0, e, r)" by (cases "take_group keyf k0 xs")
    note p = take_group_props[OF t]
    show ?thesis
    proof (cases e)
      case (Some err)
      then have "groups = [(k0, x # g0)]" using 2(2) Inr t by simp
      then show ?thesis using 2(3) p Inr by auto
    next
      case None
      obtain gs e' where rec: "groupby keyf r = (gs, e')" by (cases "groupby keyf r")
      have groups: "groups = (k0, x # g0) # gs" using 2(2) Inr t None rec by simp
      show ?thesis
      proof (cases "(k, g) = (k0, x # g0)")
        case True
        then show ?thesis using p Inr by auto
      next
        case False
        then have "(k, g) \<in> set gs" using 2(3) groups by auto
        from 2(1)[OF Inr t[symmetric] refl None rec this] show ?thesis using p by auto
      qed
    qed
  qed
qed


lemma group_loop_concat:
  "group_loop max_size max_items grp group_size objects = (yielded, last_group) \<Longrightarrow>
   concat yielded @ last_group = grp @ objects"
proof (induction objects arbitrary: grp group_size yielded last_group)
  case Nil
  then show ?case by simp
next
  case (Cons current objects)
  show ?case
  proof (cases "group_size + obj_size current \<le> max_size \<and> int (length grp) + 1 \<le> max_items")
    case True
    then have "group_loop max_size max_items (grp @ [current]) (group_size + obj_size current) objects
               = (yielded, last_group)"
      using Cons.prems by simp
    from Cons.IH[OF this] show ?thesis by simp
  next
    case False
    obtain ys g where run: "group_loop max_size max_items [current] (obj_size current) objects = (ys, g)"
      by (cases "group_loop max_size max_items [current] (obj_size current) objects")
    then have "yielded = grp # ys" "last_group = g" using Cons.prems False by auto
    with Cons.IH[OF run] show ?thesis by simp
  qed
qed

lemma group_objects_subset:
  assumes "group_objects (objects, raised) max_size max_items = (bins, e)" and "b \<in> set bins"
  shows "set b \<subseteq> set objects"
proof (cases objects)
  case Nil
  then show ?thesis using assms by (cases raised) (auto simp: group_objects_def)
next
  case (Cons initial rest)
  obtain ys g where run: "group_loop max_size max_items [initial] (obj_size initial) rest = (ys, g)"
    by (cases "group_loop max_size max_items [initial] (obj_size initial) rest")
  from group_loop_concat[OF run] have c: "concat ys @ g = objects" using Cons by simp
  have "b \<in> set ys \<or> b = g" using assms Cons run by (cases raised) (auto simp: group_objects_def)
  then show ?thesis using c by auto
qed

lemma make_tasks_groups_tasks:
  "task \<in> set (fst (make_tasks_groups role prefix groups raised)) \<Longrightarrow>
   \<exists>k g bin. (k, g) \<in> set groups \<and> k \<noteq> [] \<and> set bin \<subseteq> set g \<and> task = make_task role prefix bin"
proof (induction groups)
  case Nil
  then show ?case by simp
next
  case (Cons kg groups)
  obtain k g where kg: "kg = (k, g)" by (cases kg)
  show ?case
  proof (cases "k = []")
    case True
    then show ?thesis using Cons.prems kg by simp
  next
    case False
    obtain bins e where go: "group_objects (g, if groups = [] then raised else None)
        max_size_default max_items_default = (bins, e)"
      by (cases "group_objects (g, if groups = [] then raised else None) max_size_default max_items_default")
    have "task \<in> make_task role prefix ` set bins
          \<or> task \<in> set (fst (make_tasks_groups role prefix groups raised))"
      using Cons.prems kg False go by (cases e) (auto split: prod.splits)
    then show ?thesis
    proof
      assume "task \<in> make_task role prefix ` set bins"
      then obtain bin where b: "bin \<in> set bins" "task = make_task role prefix bin" by auto
      from group_objects_subset[OF go b(1)] b(2) False kg show ?thesis by auto
    next
      assume "task \<in> set (fst (make_tasks_groups role prefix groups raised))"
      from Cons.IH[OF this] show ?thesis by auto
    qed
  qed
qed

lemma date_getter_past:
  assumes "date_getter decimal utc_today obj = Inr s" and "s \<noteq> []"
  shows "\<exists>d. strptime decimal (take 10 (name (parse_path (key obj)))) = Inr d \<and> \<not> date_ge d utc_today"
  using assms by (auto simp: date_getter_def Let_def split: sum.splits if_splits)

lemma make_tasks_prefix_past:
  assumes "task \<in> set (fst (make_tasks_prefix decimal utc_today role prefix objects_listing))"
    and "bn \<in> set (basenames task)"
  shows "\<exists>d. strptime decimal (take 10 bn) = Inr d \<and> \<not> date_ge d utc_today"
proof -
  let ?objects = "filter (\<lambda>obj. is_access_log decimal (key obj)) objects_listing"
  obtain groups raised where gb: "groupby (date_getter decimal utc_today) ?objects = (groups, raised)"
    by (cases "groupby (date_getter decimal utc_today) ?objects")
  have "task \<in> set (fst (make_tasks_groups role prefix groups raised))"
    using assms(1) gb by (simp add: make_tasks_prefix_def)
  from make_tasks_groups_tasks[OF this] obtain k g bin where
    kg: "(k, g) \<in> set groups" "k \<noteq> []" "set bin \<subseteq> set g" "task = make_task role prefix bin"
    by blast
  from assms(2) kg(4) obtain obj where obj: "obj \<in> set bin" "bn = name (parse_path (key obj))"
    by (auto simp: make_task_def)
  have "date_getter decimal utc_today obj = Inr k"
    using groupby_members[OF gb kg(1)] kg(3) obj(1) by auto
  from date_getter_past[OF this kg(2)] obj(2) show ?thesis by simp
qed


lemma take_group_raised:
  "take_group keyf k xs = (g, Some err, r) \<Longrightarrow> \<exists>y \<in> set xs. keyf y = Inl err"
proof (induction xs arbitrary: g r)
  case Nil
  then show ?case by simp
next
  case (Cons x xs)
  then show ?case
    by (cases "keyf x") (auto split: if_splits prod.splits)
qed

lemma take_group_append_rest:
  "take_group keyf k xs = (g, None, y # r) \<Longrightarrow> take_group keyf k (xs @ ys) = (g, None, y # r @ ys)"
proof (induction xs arbitrary: g)
  case Nil
  then show ?case by simp
next
  case (Cons x xs)
  then show ?case
    by (cases "keyf x") (auto split: if_splits prod.splits)
qed

lemma take_group_append_all:
  "take_group keyf k xs = (g, None, []) \<Longrightarrow> keyf obj = Inr k0 \<Longrightarrow> k0 \<noteq> k \<Longrightarrow>
   take_group keyf k (xs @ obj # post) = (g, None, obj # post)"
proof (induction xs arbitrary: g)
  case Nil
  then show ?case by simp
next
  case (Cons x xs)
  then show ?case
    by (cases "keyf x") (auto split: if_splits prod.splits)
qed

lemma groupby_stop:
  "keyf obj = Inr k0 \<Longrightarrow> \<forall>x \<in> set pre. \<exists>s. keyf x = Inr s \<and> s \<noteq> k0 \<Longrightarrow>
     snd (groupby keyf pre) = None
     \<and> (\<exists>g later r. groupby keyf (pre @ obj # post) = (fst (groupby keyf pre) @ (k0, g) # later, r))"
proof (induction keyf pre rule: groupby.induct)
  case (1 keyf)
  obtain g0 e0 r0 where "take_group keyf k0 post = (g0, e0, r0)"
    by (cases "take_group keyf k0 post")
  then show ?case using 1 by (cases e0) (auto split: prod.splits)
next
  case (2 keyf x xs)
  note obj = 2(2) and pre = 2(3)
  from pre obtain k where k: "keyf x = Inr k" "k \<noteq> k0" by auto
  obtain g e r where t: "take_group keyf k xs = (g, e, r)" by (cases "take_group keyf k xs")
  have e: "e = None"
  proof (cases e)
    case (Some err)
    with take_group_raised[of keyf k xs g err r] t pre show ?thesis by auto
  qed simp
  show ?case
  proof (cases r)
    case Nil
    have "take_group keyf k (xs @ obj # post) = (g, None, obj # post)"
      using t e Nil obj k(2) by (intro take_group_append_all) auto
    moreover obtain g0 e0 r0 where "take_group keyf k0 post = (g0, e0, r0)"
      by (cases "take_group keyf k0 post")
    ultimately show ?thesis using k t e Nil obj
      by (cases e0) (auto split: prod.splits)
  next
    case (Cons y r')
    have app: "take_group keyf k (xs @ obj # post) = (g, None, y # r' @ obj # post)"
      using t e Cons by (intro take_group_append_rest) auto
    have "set r \<subseteq> set xs" using take_group_props[OF t] by auto
    then have "\<forall>x \<in> set r. \<exists>s. keyf x = Inr s \<and> s \<noteq> k0" using pre by auto
    from 2(1)[OF k(1) t[symmetric] refl e obj this] obtain g1 later r1 where
      ih: "snd (groupby keyf r) = None"
        "groupby keyf (r @ obj # post) = (fst (groupby keyf r) @ (k0, g1) # later, r1)"
      by auto
    show ?thesis using k t e app ih Cons by (auto split: prod.splits)
  qed
qed

lemma make_tasks_groups_stop:
  "make_tasks_groups role prefix (groups @ ([], g) # later) raised
   = make_tasks_groups role prefix groups None"
proof (induction groups)
  case Nil
  then show ?case by simp
next
  case (Cons kg groups)
  obtain k g' where kg: "kg = (k, g')" by (cases kg)
  show ?case using Cons.IH by (simp add: kg)
qed

lemma make_tasks_prefix_stop:
  assumes "\<forall>x \<in> set pre. is_access_log decimal (key x) \<longrightarrow> (\<exists>s. date_getter decimal utc_today x = Inr s \<and> s \<noteq> [])"
    and "is_access_log decimal (key obj)" and "date_getter decimal utc_today obj = Inr []"
  shows "make_tasks_prefix decimal utc_today role prefix (pre @ obj # post)
         = make_tasks_prefix decimal utc_today role prefix pre"
proof -
  let ?P = "\<lambda>obj. is_access_log decimal (key obj)"
  have f: "filter ?P (pre @ obj # post) = filter ?P pre @ obj # filter ?P post"
    using assms(2) by simp
  have "\<forall>x \<in> set (filter ?P pre). \<exists>s. date_getter decimal utc_today x = Inr s \<and> s \<noteq> []"
    using assms(1) by simp
  from groupby_stop[OF assms(3) this, of "filter ?P post"] obtain g later r where
    n: "snd (groupby (date_getter decimal utc_today) (filter ?P pre)) = None"
    and gb: "groupby (date_getter decimal utc_today) (filter ?P pre @ obj # filter ?P post)
        = (fst (groupby (date_getter decimal utc_today) (filter ?P pre)) @ ([], g) # later, r)"
    by blast
  obtain gs where gs: "groupby (date_getter decimal utc_today) (filter ?P pre) = (gs, None)"
    using n by (cases "groupby (date_getter decimal utc_today) (filter ?P pre)") auto
  show ?thesis
    using gb gs by (simp add: make_tasks_prefix_def f make_tasks_groups_stop del: filter_append filter.simps)
qed


lemma strptime_nonempty: "strptime decimal s = Inr d \<Longrightarrow> s \<noteq> []"
  by (auto simp: strptime_def format_regex_match_def re_Y_def)

lemma date_getter_of_past:
  assumes "strptime decimal (take 10 (name (parse_path (key obj)))) = Inr d" and "\<not> date_ge d utc_today"
  shows "\<exists>s. date_getter decimal utc_today obj = Inr s \<and> s \<noteq> []"
  using assms strptime_nonempty[OF assms(1)] by (simp add: date_getter_def Let_def)

lemma date_getter_of_today:
  assumes "strptime decimal (take 10 (name (parse_path (key obj)))) = Inr d" and "date_ge d utc_today"
  shows "date_getter decimal utc_today obj = Inr []"
  using assms by (simp add: date_getter_def Let_def)

text \<open>
  C4. Whatever the listing and the current UTC date, every basename in every task that
  \<^verbatim>\<open>_make_tasks\<close> yields has a derived date (its first 10 characters, parsed) strictly
  before the current date. And the enumeration stops at the first qualifying object whose
  derived date is the current date or later: when every qualifying object before it has a
  date before the current one, the objects from it on change nothing, neither tasks nor
  exceptions.
\<close>

theorem date_filter:
  "(\<forall>task \<in> set (fst (make_tasks_prefix decimal utc_today role prefix objects_listing)).
      \<forall>bn \<in> set (basenames task). \<exists>d. strptime decimal (take 10 bn) = Inr d \<and> \<not> date_ge d utc_today)
   \<and> ((\<forall>x \<in> set pre. is_access_log decimal (key x) \<longrightarrow>
          (\<exists>d. strptime decimal (take 10 (name (parse_path (key x)))) = Inr d \<and> \<not> date_ge d utc_today))
        \<and> is_access_log decimal (key obj)
        \<and> (\<exists>d. strptime decimal (take 10 (name (parse_path (key obj)))) = Inr d \<and> date_ge d utc_today)
       \<longrightarrow> make_tasks_prefix decimal utc_today role prefix (pre @ obj # post)
           = make_tasks_prefix decimal utc_today role prefix pre)"
proof (intro conjI ballI impI)
  fix task bn
  assume "task \<in> set (fst (make_tasks_prefix decimal utc_today role prefix objects_listing))"
    and "bn \<in> set (basenames task)"
  then show "\<exists>d. strptime decimal (take 10 bn) = Inr d \<and> \<not> date_ge d utc_today"
    by (rule make_tasks_prefix_past)
next
  assume a: "(\<forall>x \<in> set pre. is_access_log decimal (key x) \<longrightarrow>
          (\<exists>d. strptime decimal (take 10 (name (parse_path (key x)))) = Inr d \<and> \<not> date_ge d utc_today))
        \<and> is_access_log decimal (key obj)
        \<and> (\<exists>d. strptime decimal (take 10 (name (parse_path (key obj)))) = Inr d \<and> date_ge d utc_today)"
  then have "\<forall>x \<in> set pre. is_access_log decimal (key x) \<longrightarrow> (\<exists>s. date_getter decimal utc_today x = Inr s \<and> s \<noteq> [])"
    using date_getter_of_past by blast
  moreover have "is_access_log decimal (key obj)" using a by simp
  moreover have "date_getter decimal utc_today obj = Inr []" using a date_getter_of_today by blast
  ultimately show "make_tasks_prefix decimal utc_today role prefix (pre @ obj # post)
           = make_tasks_prefix decimal utc_today role prefix pre"
    by (rule make_tasks_prefix_stop)
qed

text \<open>
  The bucket of \<^verbatim>\<open>TestAccessLogRoller\<close> under the prefix \<^verbatim>\<open>example.com/\<close>, in key order: three
  logs for each of three past days, then the logs of the current day and a text file. The
  table \<open>test_decimal\<close> is the part of Python's table with the ASCII digits and the
  Arabic-Indic digits U+0660 to U+0669.
\<close>

definition test_decimal :: decimal_table where
  "test_decimal c =
     (if 48 \<le> c \<and> c < 58 then Some (c - 48)
      else if 1632 \<le> c \<and> c < 1642 then Some (c - 1632)
      else None)"

definition test_today :: date where
  "test_today = \<lparr>year = 2026, month = 11, day = 4\<rparr>"

definition test_prefix :: S3URI where
  "test_prefix = \<lparr>uri_bucket = (str ''bucket1''), uri_key = (str ''example.com/'')\<rparr>"

definition past_logs :: "ObjectSummary list" where
  "past_logs =
     [\<lparr>key = (str ''example.com/2023-01-01-19-13-48-F7334FE15D46A819''), obj_size = 3\<rparr>,
      \<lparr>key = (str ''example.com/2023-01-01-20-13-48-F7334FE15D46A819''), obj_size = 3\<rparr>,
      \<lparr>key = (str ''example.com/2023-01-01-21-13-48-F7334FE15D46A819''), obj_size = 3\<rparr>,
      \<lparr>key = (str ''example.com/2023-01-02-19-13-48-F7334FE15D46A819''), obj_size = 3\<rparr>,
      \<lparr>key = (str ''example.com/2023-01-02-20-13-48-F7334FE15D46A819''), obj_size = 3\<rparr>,
      \<lparr>key = (str ''example.com/2023-01-02-21-13-48-F7334FE15D46A819''), obj_size = 3\<rparr>,
      \<lparr>key = (str ''example.com/2023-01-03-19-13-48-F7334FE15D46A819''), obj_size = 3\<rparr>,
      \<lparr>key = (str ''example.com/2023-01-03-20-13-48-F7334FE15D46A819''), obj_size = 3\<rparr>,
      \<lparr>key = (str ''example.com/2023-01-03-21-13-48-F7334FE15D46A819''), obj_size = 3\<rparr>]"

definition today_log :: ObjectSummary where
  "today_log = \<lparr>key = (str ''example.com/2026-11-04-19-13-48-F7334FE15D46A819''), obj_size = 3\<rparr>"

definition later_objects :: "ObjectSummary list" where
  "later_objects =
     [\<lparr>key = (str ''example.com/2026-11-04-20-13-48-F7334FE15D46A819''), obj_size = 3\<rparr>,
      \<lparr>key = (str ''example.com/2026-11-04-21-13-48-F7334FE15D46A819''), obj_size = 3\<rparr>,
      \<lparr>key = (str ''example.com/hello.txt''), obj_size = 3\<rparr>]"

lemmas eval_defs =
  strptime_def format_regex_match_def re_Y_def re_m_def re_d_def re_lit_def re_two_def re_one_def
  is_digit_def digit_val_def test_decimal_def make_date_def days_in_month_def is_leap_def date_getter_def date_ge_def
  is_access_log_def parse_path_def splitroot_def name_def suffix_def rfind_def sep_def lstrip_def
  datetime_pattern_def Let_def

text \<open>
  A year in Arabic-Indic digits is read as Python reads it; the month takes ASCII digits
  only.
\<close>

lemma strptime_arabic_indic_year:
  "strptime test_decimal ([1634, 1632, 1634, 1635] @ str ''-01-15'')
     = Inr \<lparr>year = 2023, month = 1, day = 15\<rparr>
   \<and> strptime test_decimal (str ''2023-01-1'' @ [1637]) = Inr \<lparr>year = 2023, month = 1, day = 15\<rparr>
   \<and> strptime test_decimal (str ''2023-'' @ [1632, 1633] @ str ''-15'') = Inl ValueError
   \<and> strptime test_decimal (str ''2023-01-'' @ [1633, 1637]) = Inl ValueError"
  by (simp add: eval_defs)

text \<open>A log of 15 January 2023 whose year is written in Arabic-Indic digits.\<close>

definition arabic_indic_log :: ObjectSummary where
  "arabic_indic_log =
     \<lparr>key = str ''example.com/'' @ [1634, 1632, 1634, 1635] @ str ''-01-15-19-13-48-F7334FE15D46A819'',
      obj_size = 3\<rparr>"

lemma arabic_indic_log_task:
  "is_access_log test_decimal (key arabic_indic_log)
   \<and> date_getter test_decimal test_today arabic_indic_log
       = Inr ([1634, 1632, 1634, 1635] @ str ''-01-15'')
   \<and> make_tasks_prefix test_decimal test_today (str ''role'') test_prefix [arabic_indic_log]
       = ([\<lparr>s3_role = str ''role'', bucket_name = str ''bucket1'', common_prefix = str ''example.com/'',
            basenames = [[1634, 1632, 1634, 1635] @ str ''-01-15-19-13-48-F7334FE15D46A819'']\<rparr>],
          None)"
  by (simp add: arabic_indic_log_def test_today_def test_prefix_def make_tasks_prefix_def eval_defs
      group_objects_def make_task_def max_size_default_def max_items_default_def rsplit1_head_def)

lemma past_logs_tasks:
  "map basenames (fst (make_tasks_prefix test_decimal test_today (str ''role'') test_prefix past_logs))
   = [[(str ''2023-01-01-19-13-48-F7334FE15D46A819''), (str ''2023-01-01-20-13-48-F7334FE15D46A819''),
       (str ''2023-01-01-21-13-48-F7334FE15D46A819'')],
      [(str ''2023-01-02-19-13-48-F7334FE15D46A819''), (str ''2023-01-02-20-13-48-F7334FE15D46A819''),
       (str ''2023-01-02-21-13-48-F7334FE15D46A819'')],
      [(str ''2023-01-03-19-13-48-F7334FE15D46A819''), (str ''2023-01-03-20-13-48-F7334FE15D46A819''),
       (str ''2023-01-03-21-13-48-F7334FE15D46A819'')]]"
  by (simp add: past_logs_def test_today_def test_prefix_def make_tasks_prefix_def eval_defs
      group_objects_def make_task_def max_size_default_def max_items_default_def)


lemma past_logs_past:
  "list_all (\<lambda>x. is_access_log test_decimal (key x)
               \<and> (\<exists>d. strptime test_decimal (take 10 (name (parse_path (key x)))) = Inr d \<and> \<not> date_ge d test_today))
     past_logs"
  by (simp add: past_logs_def test_today_def eval_defs)

lemma today_log_today:
  "is_access_log test_decimal (key today_log)
   \<and> (\<exists>d. strptime test_decimal (take 10 (name (parse_path (key today_log)))) = Inr d \<and> date_ge d test_today)"
  by (simp add: today_log_def test_today_def eval_defs)

theorem date_filter_witness:
  "list_all (\<lambda>x. is_access_log test_decimal (key x)
               \<and> (\<exists>d. strptime test_decimal (take 10 (name (parse_path (key x)))) = Inr d \<and> \<not> date_ge d test_today))
     past_logs
   \<and> is_access_log test_decimal (key today_log)
   \<and> (\<exists>d. strptime test_decimal (take 10 (name (parse_path (key today_log)))) = Inr d \<and> date_ge d test_today)
   \<and> map basenames
        (fst (make_tasks_prefix test_decimal test_today (str ''role'') test_prefix (past_logs @ today_log # later_objects)))
      = [[(str ''2023-01-01-19-13-48-F7334FE15D46A819''), (str ''2023-01-01-20-13-48-F7334FE15D46A819''),
          (str ''2023-01-01-21-13-48-F7334FE15D46A819'')],
         [(str ''2023-01-02-19-13-48-F7334FE15D46A819''), (str ''2023-01-02-20-13-48-F7334FE15D46A819''),
          (str ''2023-01-02-21-13-48-F7334FE15D46A819'')],
         [(str ''2023-01-03-19-13-48-F7334FE15D46A819''), (str ''2023-01-03-20-13-48-F7334FE15D46A819''),
          (str ''2023-01-03-21-13-48-F7334FE15D46A819'')]]
   \<and> make_tasks_prefix test_decimal test_today (str ''role'') test_prefix (past_logs @ today_log # later_objects)
      = make_tasks_prefix test_decimal test_today (str ''role'') test_prefix past_logs
   \<and> list_all
        (\<lambda>task. list_all (\<lambda>bn. \<exists>d. strptime test_decimal (take 10 bn) = Inr d \<and> \<not> date_ge d test_today)
                  (basenames task))
        (fst (make_tasks_prefix test_decimal test_today (str ''role'') test_prefix (past_logs @ today_log # later_objects)))"
proof -
  note f = date_filter[of test_decimal test_today "(str ''role'')" test_prefix "past_logs @ today_log # later_objects"
      past_logs today_log later_objects]
  have p: "\<forall>x \<in> set past_logs. is_access_log test_decimal (key x) \<longrightarrow>
      (\<exists>d. strptime test_decimal (take 10 (name (parse_path (key x)))) = Inr d \<and> \<not> date_ge d test_today)"
    using past_logs_past by (simp add: list_all_iff)
  have e: "make_tasks_prefix test_decimal test_today (str ''role'') test_prefix (past_logs @ today_log # later_objects)
        = make_tasks_prefix test_decimal test_today (str ''role'') test_prefix past_logs"
    using f p today_log_today by blast
  have t: "\<forall>task \<in> set (fst (make_tasks_prefix test_decimal test_today (str ''role'') test_prefix
                            (past_logs @ today_log # later_objects))).
        \<forall>bn \<in> set (basenames task). \<exists>d. strptime test_decimal (take 10 bn) = Inr d \<and> \<not> date_ge d test_today"
    using f by blast
  show ?thesis
    using e t past_logs_past today_log_today past_logs_tasks by (simp add: list_all_iff)
qed

section \<open>Names that qualify without holding a date\<close>

text \<open>
  What it means for the first ten characters of a name to be a calendar date: they read
  \<^verbatim>\<open>YYYY-MM-DD\<close> in decimal digits (the digits that \<^verbatim>\<open>\d\<close> matches, read by their decimal
  values), the year is at least 1, the month is between 1 and 12 and the day is one that
  month has in that year.
\<close>

definition number :: "decimal_table \<Rightarrow> pystr \<Rightarrow> nat" where
  "number decimal s = foldl (\<lambda>n c. 10 * n + digit_val decimal c) 0 s"

definition calendar_date :: "decimal_table \<Rightarrow> pystr \<Rightarrow> bool" where
  "calendar_date decimal s =
     (length s = 10 \<and> re_match decimal (take 10 datetime_pattern) s
      \<and> (let y = number decimal (take 4 s); m = number decimal (take 2 (drop 5 s));
             d = number decimal (take 2 (drop 8 s))
         in 1 \<le> y \<and> 1 \<le> m \<and> m \<le> 12 \<and> 1 \<le> d \<and> d \<le> days_in_month y m))"

text \<open>
  What is used of Python's table of decimal digits: the ASCII digits, the code points 48 to
  57, have the values 0 to 9, and the space is no decimal digit.
\<close>

definition decimal_ok :: "decimal_table \<Rightarrow> bool" where
  "decimal_ok decimal = (list_all (\<lambda>i. decimal (48 + i) = Some i) [0..<10] \<and> decimal 32 = None)"

text \<open>What a match of the month and of the day can be.\<close>

lemma re_m_cases:
  "(m, r) \<in> set (re_m decimal (a # b # rest)) \<Longrightarrow>
   (m = 10 * digit_val decimal a + digit_val decimal b \<and> r = rest)
   \<or> (m = digit_val decimal a \<and> r = b # rest)"
  by (auto simp: re_m_def re_two_def re_one_def split: if_splits)

lemma re_d_dash: "re_d decimal (of_char (CHR ''-'') # rest) = []"
  by (simp add: re_d_def re_two_def re_one_def re_lit_def split: list.splits)

lemma re_d_cases:
  "(d, []) \<in> set (re_d decimal [a, b]) \<Longrightarrow> is_digit decimal a \<Longrightarrow> decimal 32 = None \<Longrightarrow>
   d = 10 * digit_val decimal a + digit_val decimal b"
  by (auto simp: re_d_def re_two_def re_one_def re_lit_def is_digit_def split: if_splits)

lemma re_Y_cases:
  "(y, r) \<in> set (re_Y decimal (y1 # y2 # y3 # y4 # rest)) \<Longrightarrow>
   y = 1000 * digit_val decimal y1 + 100 * digit_val decimal y2 + 10 * digit_val decimal y3
       + digit_val decimal y4 \<and> r = rest"
  by (auto simp: re_Y_def split: if_splits)

lemma re_lit_cases: "r \<in> set (re_lit c s) \<Longrightarrow> s = c # r"
  by (auto simp: re_lit_def split: list.splits if_splits)

lemma first_member: "(case xs of [] \<Rightarrow> None | x # _ \<Rightarrow> Some x) = Some a \<Longrightarrow> a \<in> set xs"
  by (cases xs) auto

lemma format_regex_match_member:
  assumes "format_regex_match decimal s = Some ((y, m, d), r5)"
  shows "\<exists>r1 r2 r3 r4. (y, r1) \<in> set (re_Y decimal s) \<and> r2 \<in> set (re_lit (of_char (CHR ''-'')) r1)
           \<and> (m, r3) \<in> set (re_m decimal r2) \<and> r4 \<in> set (re_lit (of_char (CHR ''-'')) r3)
           \<and> (d, r5) \<in> set (re_d decimal r4)"
proof -
  from assms have "((y, m, d), r5) \<in> set [((y, m, d), r5).
              (y, r1) \<leftarrow> re_Y decimal s, r2 \<leftarrow> re_lit (of_char (CHR ''-'')) r1,
              (m, r3) \<leftarrow> re_m decimal r2, r4 \<leftarrow> re_lit (of_char (CHR ''-'')) r3,
              (d, r5) \<leftarrow> re_d decimal r4]"
    unfolding format_regex_match_def by (rule first_member)
  then show ?thesis by auto
qed

text \<open>
  When \<^verbatim>\<open>strptime\<close> returns a date on ten characters of the shape of the pattern, the date
  is the one that the digits spell.
\<close>

lemma strptime_spelled:
  assumes "decimal 32 = None" and "is_digit decimal d1"
    and "strptime decimal [y1, y2, y3, y4, of_char (CHR ''-''), m1, m2, of_char (CHR ''-''), d1, d2] = Inr dt"
  shows "make_date
           (1000 * digit_val decimal y1 + 100 * digit_val decimal y2 + 10 * digit_val decimal y3
            + digit_val decimal y4)
           (10 * digit_val decimal m1 + digit_val decimal m2)
           (10 * digit_val decimal d1 + digit_val decimal d2) = Inr dt"
proof -
  let ?s = "[y1, y2, y3, y4, of_char (CHR ''-''), m1, m2, of_char (CHR ''-''), d1, d2]"
  from assms(3) obtain y m d where f: "format_regex_match decimal ?s = Some ((y, m, d), [])"
    and md: "make_date y m d = Inr dt"
    by (auto simp: strptime_def split: option.splits if_splits)
  from format_regex_match_member[OF f] obtain r1 r2 r3 r4 where
    y: "(y, r1) \<in> set (re_Y decimal ?s)" and r2: "r2 \<in> set (re_lit (of_char (CHR ''-'')) r1)"
    and m: "(m, r3) \<in> set (re_m decimal r2)" and r4: "r4 \<in> set (re_lit (of_char (CHR ''-'')) r3)"
    and d: "(d, []) \<in> set (re_d decimal r4)"
    by blast
  from re_Y_cases[OF y] have y': "y = 1000 * digit_val decimal y1 + 100 * digit_val decimal y2
      + 10 * digit_val decimal y3 + digit_val decimal y4"
    and r1: "r1 = [of_char (CHR ''-''), m1, m2, of_char (CHR ''-''), d1, d2]"
    by simp_all
  from re_lit_cases[OF r2] r1 have r2': "r2 = [m1, m2, of_char (CHR ''-''), d1, d2]" by simp
  from re_m_cases[OF m[unfolded r2']]
  have "m = 10 * digit_val decimal m1 + digit_val decimal m2 \<and> r3 = [of_char (CHR ''-''), d1, d2]"
  proof
    assume "m = digit_val decimal m1 \<and> r3 = [m2, of_char (CHR ''-''), d1, d2]"
    with re_lit_cases[OF r4] have "r4 = [of_char (CHR ''-''), d1, d2]" by simp
    with d re_d_dash[of decimal "[d1, d2]"] show ?thesis by simp
  qed simp
  then have m': "m = 10 * digit_val decimal m1 + digit_val decimal m2"
    and r3: "r3 = [of_char (CHR ''-''), d1, d2]"
    by simp_all
  from re_lit_cases[OF r4] r3 have "r4 = [d1, d2]" by simp
  with d have "(d, []) \<in> set (re_d decimal [d1, d2])" by simp
  from re_d_cases[OF this assms(2,1)] have "d = 10 * digit_val decimal d1 + digit_val decimal d2" .
  with md y' m' show ?thesis by simp
qed

lemma re_match_Digit:
  "re_match decimal (Digit # ps) s = (\<exists>c cs. s = c # cs \<and> is_digit decimal c \<and> re_match decimal ps cs)"
  by (cases s) auto

lemma re_match_Lit:
  "re_match decimal (Lit x # ps) s = (\<exists>cs. s = x # cs \<and> re_match decimal ps cs)"
  by (cases s) auto

lemma datetime_shape:
  assumes "re_match decimal datetime_pattern n"
  shows "\<exists>y1 y2 y3 y4 m1 m2 d1 d2 rest.
           n = y1 # y2 # y3 # y4 # of_char (CHR ''-'') # m1 # m2 # of_char (CHR ''-'') # d1 # d2 # rest
           \<and> is_digit decimal y1 \<and> is_digit decimal y2 \<and> is_digit decimal y3 \<and> is_digit decimal y4
           \<and> is_digit decimal m1 \<and> is_digit decimal m2 \<and> is_digit decimal d1 \<and> is_digit decimal d2"
  using assms unfolding datetime_pattern_def
  by (simp only: re_match_Digit re_match_Lit) blast

lemma calendar_date_digits:
  assumes "is_digit decimal y1" "is_digit decimal y2" "is_digit decimal y3" "is_digit decimal y4"
    and "is_digit decimal m1" "is_digit decimal m2" "is_digit decimal d1" "is_digit decimal d2"
  shows "calendar_date decimal [y1, y2, y3, y4, of_char (CHR ''-''), m1, m2, of_char (CHR ''-''), d1, d2]
         = (1 \<le> 1000 * digit_val decimal y1 + 100 * digit_val decimal y2 + 10 * digit_val decimal y3
                  + digit_val decimal y4
            \<and> 1 \<le> 10 * digit_val decimal m1 + digit_val decimal m2
            \<and> 10 * digit_val decimal m1 + digit_val decimal m2 \<le> 12
            \<and> 1 \<le> 10 * digit_val decimal d1 + digit_val decimal d2
            \<and> 10 * digit_val decimal d1 + digit_val decimal d2
                \<le> days_in_month
                     (1000 * digit_val decimal y1 + 100 * digit_val decimal y2 + 10 * digit_val decimal y3
                      + digit_val decimal y4)
                     (10 * digit_val decimal m1 + digit_val decimal m2))"
  using assms by (simp add: calendar_date_def datetime_pattern_def number_def Let_def)

text \<open>
  On the name of a qualifying key \<^verbatim>\<open>strptime\<close> returns a date only when the first ten
  characters are a calendar date.
\<close>

lemma qualifying_strptime:
  assumes "decimal 32 = None" and "is_access_log decimal k"
    and "\<not> calendar_date decimal (take 10 (name (parse_path k)))"
  shows "strptime decimal (take 10 (name (parse_path k))) = Inl ValueError"
proof -
  from assms(2) have "re_match decimal datetime_pattern (name (parse_path k))"
    by (simp add: is_access_log_def Let_def split: if_splits)
  from datetime_shape[OF this] obtain y1 y2 y3 y4 m1 m2 d1 d2 rest where
    n: "name (parse_path k) = y1 # y2 # y3 # y4 # of_char (CHR ''-'') # m1 # m2 # of_char (CHR ''-'') # d1 # d2 # rest"
    and d: "is_digit decimal y1" "is_digit decimal y2" "is_digit decimal y3" "is_digit decimal y4"
      "is_digit decimal m1" "is_digit decimal m2" "is_digit decimal d1" "is_digit decimal d2"
    by blast
  have t: "take 10 (name (parse_path k)) = [y1, y2, y3, y4, of_char (CHR ''-''), m1, m2, of_char (CHR ''-''), d1, d2]"
    by (simp add: n)
  show ?thesis
  proof (cases "strptime decimal (take 10 (name (parse_path k)))")
    case (Inl e)
    then show ?thesis by (cases e) (auto simp: strptime_def make_date_def split: option.splits if_splits)
  next
    case (Inr dt)
    from strptime_spelled[OF assms(1) d(7) Inr[unfolded t]]
    have "calendar_date decimal (take 10 (name (parse_path k)))"
      unfolding t calendar_date_digits[OF d] by (simp add: make_date_def split: if_splits)
    with assms(3) show ?thesis by simp
  qed
qed

text \<open>How an exception of the key function comes out of \<^verbatim>\<open>groupby\<close> and of the task loop.\<close>

lemma take_group_append_raise:
  "take_group keyf k xs = (g, None, []) \<Longrightarrow> keyf obj = Inl err \<Longrightarrow>
   take_group keyf k (xs @ obj # post) = (g, Some err, obj # post)"
proof (induction xs arbitrary: g)
  case Nil
  then show ?case by simp
next
  case (Cons x xs)
  then show ?case
    by (cases "keyf x") (auto split: if_splits prod.splits)
qed

lemma groupby_raise:
  "keyf obj = Inl err \<Longrightarrow> \<forall>x \<in> set pre. \<exists>s. keyf x = Inr s \<Longrightarrow>
     groupby keyf (pre @ obj # post) = (fst (groupby keyf pre), Some err)"
proof (induction keyf pre rule: groupby.induct)
  case (1 keyf)
  then show ?case by simp
next
  case (2 keyf x xs)
  note obj = 2(2) and pre = 2(3)
  from pre obtain k where k: "keyf x = Inr k" by auto
  obtain g e r where t: "take_group keyf k xs = (g, e, r)" by (cases "take_group keyf k xs")
  have e: "e = None"
  proof (cases e)
    case (Some err')
    with take_group_raised[of keyf k xs g err' r] t pre show ?thesis by auto
  qed simp
  show ?case
  proof (cases r)
    case Nil
    have "take_group keyf k (xs @ obj # post) = (g, Some err, obj # post)"
      using t e Nil obj by (intro take_group_append_raise) auto
    then show ?thesis using k t e Nil by simp
  next
    case (Cons y r')
    have app: "take_group keyf k (xs @ obj # post) = (g, None, y # r' @ obj # post)"
      using t e Cons by (intro take_group_append_rest) auto
    have "set r \<subseteq> set xs" using take_group_props[OF t] by auto
    then have "\<forall>x \<in> set r. \<exists>s. keyf x = Inr s" using pre by auto
    from 2(1)[OF k t[symmetric] refl e obj this]
    have "groupby keyf (r @ obj # post) = (fst (groupby keyf r), Some err)" .
    then show ?thesis using k t e app Cons by (auto split: prod.splits)
  qed
qed

lemma group_objects_raised:
  "g \<noteq> [] \<Longrightarrow> snd (group_objects (g, raised) max_size max_items) = raised"
  by (cases g; cases raised) (auto simp: group_objects_def split: prod.splits)

lemma make_tasks_groups_raise:
  "\<forall>(k, g) \<in> set groups. k \<noteq> [] \<and> g \<noteq> [] \<Longrightarrow>
   snd (make_tasks_groups role prefix groups (Some err)) = Some err"
proof (induction groups)
  case Nil
  then show ?case by simp
next
  case (Cons kg groups)
  obtain k g where kg: "kg = (k, g)" by (cases kg)
  have k: "k \<noteq> []" and g: "g \<noteq> []" using Cons.prems kg by auto
  obtain bins e where go:
    "group_objects (g, if groups = [] then Some err else None) max_size_default max_items_default
     = (bins, e)"
    by (cases "group_objects (g, if groups = [] then Some err else None)
                 max_size_default max_items_default")
  have e: "e = (if groups = [] then Some err else None)"
    using group_objects_raised[OF g, of "if groups = [] then Some err else None"
        max_size_default max_items_default] go by simp
  show ?case
  proof (cases "groups = []")
    case True
    then show ?thesis using kg k go e by simp
  next
    case False
    have "snd (make_tasks_groups role prefix groups (Some err)) = Some err"
      using Cons by simp
    then show ?thesis using kg k go e False by (simp add: case_prod_beta)
  qed
qed

lemma make_tasks_prefix_raise:
  assumes "\<forall>x \<in> set pre. is_access_log decimal (key x) \<longrightarrow> (\<exists>s. date_getter decimal utc_today x = Inr s \<and> s \<noteq> [])"
    and "is_access_log decimal (key obj)" and "date_getter decimal utc_today obj = Inl err"
  shows "snd (make_tasks_prefix decimal utc_today role prefix (pre @ obj # post)) = Some err"
proof -
  let ?P = "\<lambda>obj. is_access_log decimal (key obj)"
  let ?pre = "filter ?P pre"
  have f: "filter ?P (pre @ obj # post) = ?pre @ obj # filter ?P post"
    using assms(2) by simp
  have p: "\<forall>x \<in> set ?pre. \<exists>s. date_getter decimal utc_today x = Inr s \<and> s \<noteq> []"
    using assms(1) by simp
  then have "\<forall>x \<in> set ?pre. \<exists>s. date_getter decimal utc_today x = Inr s" by blast
  from groupby_raise[OF assms(3) this, of "filter ?P post"]
  have gb: "groupby (date_getter decimal utc_today) (?pre @ obj # filter ?P post)
        = (fst (groupby (date_getter decimal utc_today) ?pre), Some err)" .
  obtain groups r where gp: "groupby (date_getter decimal utc_today) ?pre = (groups, r)"
    by (cases "groupby (date_getter decimal utc_today) ?pre")
  have "\<forall>(k, g) \<in> set groups. k \<noteq> [] \<and> g \<noteq> []"
  proof (intro ballI, clarify)
    fix k g assume kg: "(k, g) \<in> set groups"
    from groupby_members[OF gp kg] obtain x where "x \<in> set ?pre" "date_getter decimal utc_today x = Inr k"
      and g: "g \<noteq> []"
      by (cases g) auto
    with p show "k \<noteq> [] \<and> g \<noteq> []" by auto
  qed
  from make_tasks_groups_raise[OF this, of role prefix err] show ?thesis
    using gb gp by (simp add: make_tasks_prefix_def f del: filter_append filter.simps)
qed

text \<open>A log dated 30 February, between the past logs and the logs of the current day.\<close>

definition bad_log :: ObjectSummary where
  "bad_log = \<lparr>key = (str ''example.com/2023-02-30-19-13-48-F7334FE15D46A819''), obj_size = 3\<rparr>"

lemma decimal_ok_digits:
  assumes "decimal_ok decimal"
  shows "decimal 48 = Some 0" "decimal 49 = Some 1" "decimal 50 = Some 2" "decimal 51 = Some 3"
    "decimal 52 = Some 4" "decimal 53 = Some 5" "decimal 54 = Some 6" "decimal 55 = Some 7"
    "decimal 56 = Some 8" "decimal 57 = Some 9" "decimal 32 = None"
proof -
  have u: "[0..<10] = [0, 1, 2, 3, 4, 5, 6, 7, 8, 9]" by (simp add: upt_rec)
  from assms show "decimal 48 = Some 0" "decimal 49 = Some 1" "decimal 50 = Some 2"
    "decimal 51 = Some 3" "decimal 52 = Some 4" "decimal 53 = Some 5" "decimal 54 = Some 6"
    "decimal 55 = Some 7" "decimal 56 = Some 8" "decimal 57 = Some 9" "decimal 32 = None"
    by (simp_all add: decimal_ok_def u)
qed

lemma bad_log_qualifies:
  assumes "decimal_ok decimal"
  shows "is_access_log decimal (key bad_log)
         \<and> \<not> calendar_date decimal (take 10 (name (parse_path (key bad_log))))"
  by (simp add: bad_log_def decimal_ok_digits[OF assms] is_access_log_def parse_path_def
      splitroot_def name_def suffix_def rfind_def sep_def lstrip_def datetime_pattern_def Let_def
      is_digit_def digit_val_def days_in_month_def is_leap_def calendar_date_def number_def)

lemma test_decimal_ok: "decimal_ok test_decimal"
  by (simp add: decimal_ok_def test_decimal_def upt_rec)

text \<open>
  C10. Python's table of decimal digits gives the ASCII digits their values and does not
  hold the space. Then some key passes \<^verbatim>\<open>_is_access_log\<close> although the first ten characters
  of its name are not a calendar date. For every object with such a key \<^verbatim>\<open>_date_getter\<close>
  raises \<^verbatim>\<open>ValueError\<close>, whatever the current date; and when the qualifying objects listed
  before it all have dates before the current date, \<^verbatim>\<open>_make_tasks\<close> ends with that
  \<^verbatim>\<open>ValueError\<close> instead of skipping the object.
\<close>

theorem invalid_date_aborts:
  "decimal_ok decimal \<Longrightarrow>
   (\<exists>k. is_access_log decimal k \<and> \<not> calendar_date decimal (take 10 (name (parse_path k))))
   \<and> (is_access_log decimal (key obj)
        \<and> \<not> calendar_date decimal (take 10 (name (parse_path (key obj)))) \<longrightarrow>
        date_getter decimal utc_today obj = Inl ValueError
        \<and> ((\<forall>x \<in> set pre. is_access_log decimal (key x) \<longrightarrow>
               (\<exists>d. strptime decimal (take 10 (name (parse_path (key x)))) = Inr d
                     \<and> \<not> date_ge d utc_today))
            \<longrightarrow> snd (make_tasks_prefix decimal utc_today role prefix (pre @ obj # post))
                  = Some ValueError))"
proof (intro conjI impI)
  assume ok: "decimal_ok decimal"
  show "\<exists>k. is_access_log decimal k \<and> \<not> calendar_date decimal (take 10 (name (parse_path k)))"
    using bad_log_qualifies[OF ok] by blast
next
  assume ok: "decimal_ok decimal"
    and a: "is_access_log decimal (key obj)
        \<and> \<not> calendar_date decimal (take 10 (name (parse_path (key obj))))"
  then show "date_getter decimal utc_today obj = Inl ValueError"
    using qualifying_strptime[of decimal "key obj"] decimal_ok_digits(11)[OF ok]
    by (simp add: date_getter_def Let_def)
next
  assume ok: "decimal_ok decimal"
    and a: "is_access_log decimal (key obj)
        \<and> \<not> calendar_date decimal (take 10 (name (parse_path (key obj))))"
    and p: "\<forall>x \<in> set pre. is_access_log decimal (key x) \<longrightarrow>
               (\<exists>d. strptime decimal (take 10 (name (parse_path (key x)))) = Inr d
                     \<and> \<not> date_ge d utc_today)"
  have g: "date_getter decimal utc_today obj = Inl ValueError"
    using a qualifying_strptime[of decimal "key obj"] decimal_ok_digits(11)[OF ok]
    by (simp add: date_getter_def Let_def)
  have "\<forall>x \<in> set pre. is_access_log decimal (key x) \<longrightarrow>
      (\<exists>s. date_getter decimal utc_today x = Inr s \<and> s \<noteq> [])"
    using p date_getter_of_past by blast
  moreover have "is_access_log decimal (key obj)" using a by simp
  ultimately show "snd (make_tasks_prefix decimal utc_today role prefix (pre @ obj # post))
      = Some ValueError"
    using g by (rule make_tasks_prefix_raise)
qed

theorem invalid_date_aborts_witness:
  "decimal_ok test_decimal
   \<and> is_access_log test_decimal (key bad_log)
   \<and> \<not> calendar_date test_decimal (take 10 (name (parse_path (key bad_log))))
   \<and> list_all (\<lambda>x. is_access_log test_decimal (key x)
               \<and> (\<exists>d. strptime test_decimal (take 10 (name (parse_path (key x)))) = Inr d
                       \<and> \<not> date_ge d test_today))
        past_logs
   \<and> date_getter test_decimal test_today bad_log = Inl ValueError
   \<and> snd (make_tasks_prefix test_decimal test_today (str ''role'') test_prefix
            (past_logs @ bad_log # today_log # later_objects))
      = Some ValueError"
proof -
  have p: "\<forall>x \<in> set past_logs. is_access_log test_decimal (key x) \<longrightarrow>
      (\<exists>d. strptime test_decimal (take 10 (name (parse_path (key x)))) = Inr d
            \<and> \<not> date_ge d test_today)"
    using past_logs_past by (simp add: list_all_iff)
  from invalid_date_aborts[OF test_decimal_ok, of bad_log test_today past_logs "(str ''role'')"
      test_prefix "today_log # later_objects"] bad_log_qualifies[OF test_decimal_ok] p
    past_logs_past test_decimal_ok
  show ?thesis by blast
qed

section \<open>Oversized tasks and delete batches\<close>

lemma range_up_below: "j \<in> set (range_up i stop step) \<Longrightarrow> j < stop"
proof (induction i stop step rule: range_up.induct)
  case (1 i stop step)
  from 1(2) have "0 < step \<and> i < stop \<and> (j = i \<or> j \<in> set (range_up (i + step) stop step))"
    by (subst (asm) range_up.simps) (auto split: if_splits)
  then show ?case using 1(1) by auto
qed

lemma split_chunk_nonempty:
  assumes "0 < n" "c \<in> set (fst (RollupTask_split task n))"
  shows "basenames c \<noteq> []"
proof -
  from assms obtain i where i: "i \<in> set (range_up 0 (int (len task)) n)"
    and c: "c = task\<lparr>basenames := py_slice (basenames task) i (i + n)\<rparr>"
    by (auto simp: RollupTask_split_def py_range_def)
  have "0 \<le> i" using i by (rule range_up_nonneg[rotated]) simp
  moreover have "i < int (len task)" using i by (rule range_up_below)
  ultimately show ?thesis using assms(1) c by (simp add: len_def py_slice_chunk)
qed

lemma for_each_all_returned:
  "\<forall>x \<in> set xs. bd x = (f x, None) \<Longrightarrow> for_each xs raised bd = (concat (map f xs), raised)"
  by (induction xs) auto

lemma queue_tasks_small:
  assumes "\<forall>t \<in> set tasks. len t \<le> 6000 \<and> basenames t \<noteq> []"
  shows "queue_tasks (tasks, raised) = (tasks, raised)"
proof -
  have "\<forall>t \<in> set tasks.
          (if 6000 < len t then queue_tasks (RollupTask_split t 6000)
           else (case date_str t of Inl e \<Rightarrow> ([], Some e) | Inr _ \<Rightarrow> ([t], None)))
          = ([t], None)"
    using assms by (auto simp: date_str_def)
  from for_each_all_returned[OF this, of raised] show ?thesis
    by (simp add: queue_tasks.simps)
qed

text \<open>What \<^verbatim>\<open>queue_tasks\<close> sends for one task, and what \<^verbatim>\<open>_delete_objects_in_task\<close> deletes in one call.\<close>

definition messages_of :: "RollupTask \<Rightarrow> RollupTask list" where
  "messages_of task = (if 6000 < len task then fst (RollupTask_split task 6000) else [task])"

definition batches_of :: "RollupTask \<Rightarrow> pystr list list" where
  "batches_of task =
     (if 1000 < len task then map object_keys (fst (RollupTask_split task 1000))
      else [object_keys task])"

lemma queue_tasks_messages:
  assumes "\<forall>t \<in> set tasks. basenames t \<noteq> []"
  shows "queue_tasks (tasks, raised) = (concat (map messages_of tasks), raised)"
proof -
  have "\<forall>t \<in> set tasks.
          (if 6000 < len t then queue_tasks (RollupTask_split t 6000)
           else (case date_str t of Inl e \<Rightarrow> ([], Some e) | Inr _ \<Rightarrow> ([t], None)))
          = (messages_of t, None)"
  proof
    fix t assume t: "t \<in> set tasks"
    show "(if 6000 < len t then queue_tasks (RollupTask_split t 6000)
           else (case date_str t of Inl e \<Rightarrow> ([], Some e) | Inr _ \<Rightarrow> ([t], None)))
          = (messages_of t, None)"
    proof (cases "6000 < len t")
      case True
      obtain chunks where s: "RollupTask_split t 6000 = (chunks, None)"
        by (simp add: RollupTask_split_def py_range_def)
      have "\<forall>c \<in> set chunks. len c \<le> 6000 \<and> basenames c \<noteq> []"
        using split_chunk_len[of 6000 _ t] split_chunk_nonempty[of 6000 _ t] s by fastforce
      from queue_tasks_small[OF this, of None] show ?thesis
        using True s by (simp add: messages_of_def)
    next
      case False
      then show ?thesis using assms t by (simp add: messages_of_def date_str_def)
    qed
  qed
  from for_each_all_returned[OF this, of raised] show ?thesis
    by (simp add: queue_tasks.simps)
qed

lemma delete_objects_batches: "delete_objects_in_task task = (batches_of task, None)"
proof (cases "1000 < len task")
  case True
  obtain chunks where s: "RollupTask_split task 1000 = (chunks, None)"
    by (simp add: RollupTask_split_def py_range_def)
  have "\<forall>c \<in> set chunks. delete_objects_in_task c = ([object_keys c], None)"
  proof
    fix c assume "c \<in> set chunks"
    then have "int (len c) \<le> 1000" using split_chunk_len[of 1000 c task] s by simp
    then show "delete_objects_in_task c = ([object_keys c], None)"
      by (subst delete_objects_in_task.simps) simp
  qed
  from for_each_all_returned[OF this, of None] show ?thesis
    using True s by (subst delete_objects_in_task.simps) (simp add: batches_of_def comp_def)
next
  case False
  then show ?thesis by (subst delete_objects_in_task.simps) (simp add: batches_of_def)
qed

lemma messages_of_props:
  shows "\<forall>m \<in> set (messages_of task).
           len m \<le> 6000 \<and> s3_role m = s3_role task \<and> bucket_name m = bucket_name task
           \<and> common_prefix m = common_prefix task"
    and "concat (map basenames (messages_of task)) = basenames task"
proof -
  show "\<forall>m \<in> set (messages_of task).
           len m \<le> 6000 \<and> s3_role m = s3_role task \<and> bucket_name m = bucket_name task
           \<and> common_prefix m = common_prefix task"
  proof (cases "6000 < len task")
    case True
    have "len m \<le> 6000 \<and> s3_role m = s3_role task \<and> bucket_name m = bucket_name task
           \<and> common_prefix m = common_prefix task"
      if "m \<in> set (fst (RollupTask_split task 6000))" for m
      using split_chunk_len[of 6000 m task] split_fields[of m task 6000] that by simp
    then show ?thesis using True by (simp add: messages_of_def)
  next
    case False
    then show ?thesis by (simp add: messages_of_def)
  qed
  show "concat (map basenames (messages_of task)) = basenames task"
    using split_concat[of 6000 task] by (simp add: messages_of_def)
qed

lemma batches_of_props:
  shows "\<forall>b \<in> set (batches_of task). length b \<le> 1000"
    and "concat (batches_of task) = object_keys task"
proof -
  show "\<forall>b \<in> set (batches_of task). length b \<le> 1000"
  proof (cases "1000 < len task")
    case True
    have "length (object_keys c) \<le> 1000" if "c \<in> set (fst (RollupTask_split task 1000))" for c
      using split_chunk_len[of 1000 c task] that by (simp add: object_keys_def len_def)
    then show ?thesis using True by (auto simp: batches_of_def)
  next
    case False
    then show ?thesis by (simp add: batches_of_def object_keys_def len_def)
  qed
  have k: "object_keys c = map (\<lambda>bn. common_prefix task @ bn) (basenames c)"
    if "c \<in> set (fst (RollupTask_split task 1000))" for c
    using split_fields[of c task 1000] that by (simp add: object_keys_def)
  have "concat (map object_keys (fst (RollupTask_split task 1000)))
        = concat (map (\<lambda>c. map (\<lambda>bn. common_prefix task @ bn) (basenames c))
                   (fst (RollupTask_split task 1000)))"
    using k by (intro arg_cong[where f = concat] map_cong) auto
  also have "\<dots> = map (\<lambda>bn. common_prefix task @ bn)
                   (concat (map basenames (fst (RollupTask_split task 1000))))"
    by (simp add: map_concat comp_def)
  finally show "concat (batches_of task) = object_keys task"
    using split_concat[of 1000 task] by (simp add: batches_of_def object_keys_def)
qed

lemma messages_of_concat:
  "concat (map basenames (concat (map messages_of tasks))) = concat (map basenames tasks)"
  by (induction tasks) (simp_all add: messages_of_props(2))

text \<open>
  C7. \<^verbatim>\<open>queue_tasks\<close>, given tasks that each have a basename, raises nothing; it sends a
  task of at most 6000 basenames as it is and the chunks of \<^verbatim>\<open>split(6000)\<close> in place of a
  larger one, so every message has at most 6000 basenames and the basenames of the
  messages, in order, are those of the tasks. \<^verbatim>\<open>_delete_objects_in_task\<close> raises nothing
  on any task; it deletes the keys of a task of at most 1000 basenames in one call and
  those of each chunk of \<^verbatim>\<open>split(1000)\<close> in one call each for a larger one, so every call
  has at most 1000 keys and the keys of the calls, in order, are the object keys of the task.
\<close>

theorem oversize_is_split:
  "((\<forall>t \<in> set tasks. basenames t \<noteq> []) \<longrightarrow>
      (\<exists>sent. queue_tasks (tasks, None) = (sent, None)
         \<and> sent = concat (map (\<lambda>t. if 6000 < len t then fst (RollupTask_split t 6000) else [t]) tasks)
         \<and> (\<forall>m \<in> set sent. len m \<le> 6000)
         \<and> concat (map basenames sent) = concat (map basenames tasks)))
   \<and> (\<exists>calls. delete_objects_in_task task = (calls, None)
         \<and> calls = (if 1000 < len task then map object_keys (fst (RollupTask_split task 1000))
                     else [object_keys task])
         \<and> (\<forall>c \<in> set calls. length c \<le> 1000)
         \<and> concat calls = object_keys task)"
proof (intro conjI impI)
  assume ne: "\<forall>t \<in> set tasks. basenames t \<noteq> []"
  have m: "messages_of = (\<lambda>t. if 6000 < len t then fst (RollupTask_split t 6000) else [t])"
    by (rule ext) (simp add: messages_of_def)
  have "\<forall>m \<in> set (concat (map messages_of tasks)). len m \<le> 6000"
    using messages_of_props(1) by auto
  then show "\<exists>sent. queue_tasks (tasks, None) = (sent, None)
         \<and> sent = concat (map (\<lambda>t. if 6000 < len t then fst (RollupTask_split t 6000) else [t]) tasks)
         \<and> (\<forall>m \<in> set sent. len m \<le> 6000)
         \<and> concat (map basenames sent) = concat (map basenames tasks)"
    using queue_tasks_messages[OF ne, of None] messages_of_concat[of tasks] unfolding m by simp
next
  show "\<exists>calls. delete_objects_in_task task = (calls, None)
         \<and> calls = (if 1000 < len task then map object_keys (fst (RollupTask_split task 1000))
                     else [object_keys task])
         \<and> (\<forall>c \<in> set calls. length c \<le> 1000)
         \<and> concat calls = object_keys task"
    using delete_objects_batches[of task] batches_of_props[of task]
    by (simp add: batches_of_def)
qed

text \<open>The task of the test suite with 6001 basenames instead of 8.\<close>

definition big_task :: RollupTask where
  "big_task = test_task\<lparr>basenames := replicate 6001 (str ''2022-06-30-16-13-48-F7334FE15D46A819'')\<rparr>"

lemma big_task_chunks:
  "map len (fst (RollupTask_split big_task 6000)) = [6000, 1]"
  "map len (fst (RollupTask_split big_task 1000)) = [1000, 1000, 1000, 1000, 1000, 1000, 1]"
  by (simp_all add: split_eq range_up.simps len_def big_task_def py_slice_def clip_index_def Let_def)

theorem oversize_is_split_witness:
  "list_all (\<lambda>t. basenames t \<noteq> []) [big_task] \<and> len big_task = 6001
   \<and> snd (queue_tasks ([big_task], None)) = None
   \<and> map len (fst (queue_tasks ([big_task], None))) = [6000, 1]
   \<and> concat (map basenames (fst (queue_tasks ([big_task], None)))) = basenames big_task
   \<and> snd (delete_objects_in_task big_task) = None
   \<and> map length (fst (delete_objects_in_task big_task)) = [1000, 1000, 1000, 1000, 1000, 1000, 1]
   \<and> concat (fst (delete_objects_in_task big_task)) = object_keys big_task"
proof -
  have l: "len big_task = 6001" by (simp add: len_def big_task_def)
  have ne: "\<forall>t \<in> set [big_task]. basenames t \<noteq> []" by (simp add: big_task_def)
  have k: "map length (map object_keys (fst (RollupTask_split big_task 1000)))
           = map len (fst (RollupTask_split big_task 1000))"
    by (simp add: object_keys_def len_def comp_def)
  from oversize_is_split[of "[big_task]" big_task] ne l big_task_chunks k
  show ?thesis by (auto simp: list_all_iff)
qed

section \<open>Deleting a message after its task\<close>

text \<open>The messages that a trace yields and deletes, in order.\<close>

fun yielded :: "event list \<Rightarrow> Message list" where
  "yielded [] = []"
| "yielded (Yielded m # evs) = m # yielded evs"
| "yielded (ev # evs) = yielded evs"

fun deleted :: "event list \<Rightarrow> Message list" where
  "deleted [] = []"
| "deleted (Deleted m # evs) = m # deleted evs"
| "deleted (ev # evs) = deleted evs"

text \<open>
  The worker loop over the messages still to come, the generator being at the head of its
  loop.
\<close>

fun worker_run ::
  "(pystr \<Rightarrow> error + RollupTask) \<Rightarrow> (RollupTask \<Rightarrow> error + 'r) \<Rightarrow> Message list \<Rightarrow> event gen" where
  "worker_run loads process [] = ([], None)"
| "worker_run loads process (m # ms) =
     (case loads (body m) of
        Inl e \<Rightarrow> ([], Some e)
      | Inr task \<Rightarrow>
          (case date_str task of
             Inl e \<Rightarrow> ([], Some e)
           | Inr _ \<Rightarrow>
               (case process task of
                  Inl e \<Rightarrow> ([Yielded m, Failed task e], Some e)
                | Inr _ \<Rightarrow>
                    (case worker_run loads process ms of
                       (evs, r) \<Rightarrow> (Yielded m # Processed task # Deleted m # evs, r)))))"

lemma worker_loop_At_yield:
  "worker_loop loads process (At_yield m ms)
   = (case worker_run loads process ms of (evs, r) \<Rightarrow> (Deleted m # evs, r))"
proof (induction ms arbitrary: m)
  case Nil
  show ?case by (subst worker_loop.simps) simp
next
  case (Cons m' ms)
  show ?case
    by (subst worker_loop.simps)
       (auto simp: Cons split: sum.splits prod.splits)
qed

lemma worker_loop_Not_started:
  "worker_loop loads process (Not_started ms) = worker_run loads process ms"
  by (cases ms; subst worker_loop.simps)
     (auto simp: worker_loop_At_yield split: sum.splits prod.splits)

lemma worker_run_deleted:
  "worker_run loads process ms = (pre @ Deleted m # post, raised) \<Longrightarrow>
   \<exists>pre' task r. pre = pre' @ [Yielded m, Processed task]
      \<and> loads (body m) = Inr task \<and> process task = Inr r"
proof (induction ms arbitrary: pre raised)
  case Nil
  then show ?case by simp
next
  case (Cons m' ms)
  show ?case
  proof (cases "loads (body m')")
    case (Inl e)
    then show ?thesis using Cons.prems by simp
  next
    case (Inr task)
    show ?thesis
    proof (cases "date_str task")
      case (Inl e)
      then show ?thesis using Cons.prems Inr by simp
    next
      case d: (Inr ds)
      show ?thesis
      proof (cases "process task")
        case (Inl e)
        then show ?thesis using Cons.prems Inr d by (auto simp: Cons_eq_append_conv)
      next
        case p: (Inr r)
        obtain evs r' where run: "worker_run loads process ms = (evs, r')"
          by (cases "worker_run loads process ms")
        from Cons.prems Inr d p run
        have eq: "Yielded m' # Processed task # Deleted m' # evs = pre @ Deleted m # post"
          and "raised = r'" by simp_all
        show ?thesis
        proof (cases "pre = [Yielded m', Processed task]")
          case True
          with eq have "m = m'" by simp
          with True Inr p show ?thesis by simp
        next
          case False
          with eq obtain pre2 where pre: "pre = Yielded m' # Processed task # Deleted m' # pre2"
            and evs: "evs = pre2 @ Deleted m # post"
            by (auto simp: Cons_eq_append_conv)
          from Cons.IH[OF run[unfolded evs]] obtain pre' task' r2 where
            "pre2 = pre' @ [Yielded m, Processed task']" "loads (body m) = Inr task'"
            "process task' = Inr r2"
            by blast
          then show ?thesis using pre by simp
        qed
      qed
    qed
  qed
qed

lemma worker_run_failed:
  "worker_run loads process ms = (pre @ Failed task e # post, raised) \<Longrightarrow>
   post = [] \<and> raised = Some e \<and> process task = Inl e
   \<and> (\<exists>pre' m. pre = pre' @ [Yielded m] \<and> loads (body m) = Inr task
         \<and> yielded (pre @ Failed task e # post) = deleted (pre @ Failed task e # post) @ [m])"
proof (induction ms arbitrary: pre raised)
  case Nil
  then show ?case by simp
next
  case (Cons m' ms)
  show ?case
  proof (cases "loads (body m')")
    case (Inl e')
    then show ?thesis using Cons.prems by simp
  next
    case (Inr task')
    show ?thesis
    proof (cases "date_str task'")
      case (Inl e')
      then show ?thesis using Cons.prems Inr by simp
    next
      case d: (Inr ds)
      show ?thesis
      proof (cases "process task'")
        case (Inl e')
        then show ?thesis using Cons.prems Inr d by (auto simp: Cons_eq_append_conv)
      next
        case p: (Inr r)
        obtain evs r' where run: "worker_run loads process ms = (evs, r')"
          by (cases "worker_run loads process ms")
        from Cons.prems Inr d p run
        have eq: "Yielded m' # Processed task' # Deleted m' # evs = pre @ Failed task e # post"
          and r: "raised = r'" by simp_all
        then obtain pre2 where pre: "pre = Yielded m' # Processed task' # Deleted m' # pre2"
          and evs: "evs = pre2 @ Failed task e # post"
          by (auto simp: Cons_eq_append_conv)
        from Cons.IH[OF run[unfolded evs]] show ?thesis using pre r by auto
      qed
    qed
  qed
qed

lemma worker_run_prefix:
  "worker_run loads process ms = (trace, raised) \<Longrightarrow>
   yielded trace = take (length (yielded trace)) ms
   \<and> deleted trace = take (length (deleted trace)) ms"
proof (induction ms arbitrary: trace raised)
  case Nil
  then show ?case by simp
next
  case (Cons m ms)
  obtain evs r' where run: "worker_run loads process ms = (evs, r')"
    by (cases "worker_run loads process ms")
  from Cons.IH[OF run] Cons.prems run show ?case
    by (auto split: sum.splits)
qed

lemma deleted_member: "(Deleted m \<in> set trace) = (m \<in> set (deleted trace))"
  by (induction trace rule: deleted.induct) auto

text \<open>
  C6. In the trace of one worker run over the received messages, a message is deleted only
  directly after its task was yielded and the caller finished processing that task without
  an exception. When the caller raises on a yielded task the run ends there with that
  exception: the messages deleted are those yielded before, so the message of the failed
  task is the one yielded message that is not deleted (and, the received messages being
  distinct, no event of the trace deletes it). The yielded and the deleted messages are the
  received ones, in order, up to where the run ended.
\<close>

theorem delete_after_success:
  assumes "worker loads process messages = (trace, raised)"
  shows "(\<forall>pre m post. trace = pre @ Deleted m # post \<longrightarrow>
            (\<exists>pre' task r. pre = pre' @ [Yielded m, Processed task]
               \<and> loads (body m) = Inr task \<and> process task = Inr r))
         \<and> (\<forall>pre task e post. trace = pre @ Failed task e # post \<longrightarrow>
              post = [] \<and> raised = Some e \<and> process task = Inl e
              \<and> (\<exists>pre' m. pre = pre' @ [Yielded m] \<and> loads (body m) = Inr task
                    \<and> yielded trace = deleted trace @ [m]
                    \<and> (distinct messages \<longrightarrow> Deleted m \<notin> set trace)))
         \<and> yielded trace = take (length (yielded trace)) messages
         \<and> deleted trace = take (length (deleted trace)) messages"
proof -
  from assms have run: "worker_run loads process messages = (trace, raised)"
    by (simp add: worker_def worker_loop_Not_started)
  note pf = worker_run_prefix[OF run]
  have a: "\<exists>pre' task r. pre = pre' @ [Yielded m, Processed task]
               \<and> loads (body m) = Inr task \<and> process task = Inr r"
    if "trace = pre @ Deleted m # post" for pre m post
    using worker_run_deleted[OF run[unfolded that]] .
  have b: "post = [] \<and> raised = Some e \<and> process task = Inl e
              \<and> (\<exists>pre' m. pre = pre' @ [Yielded m] \<and> loads (body m) = Inr task
                    \<and> yielded trace = deleted trace @ [m]
                    \<and> (distinct messages \<longrightarrow> Deleted m \<notin> set trace))"
    if t: "trace = pre @ Failed task e # post" for pre task e post
  proof -
    from worker_run_failed[OF run[unfolded t]] obtain pre' m where
      f: "post = []" "raised = Some e" "process task = Inl e"
      "pre = pre' @ [Yielded m]" "loads (body m) = Inr task"
      "yielded trace = deleted trace @ [m]"
      unfolding t by blast
    have "Deleted m \<notin> set trace" if d: "distinct messages"
    proof -
      from d have "distinct (take (length (yielded trace)) messages)" by simp
      then have "distinct (yielded trace)" using pf by simp
      then have "m \<notin> set (deleted trace)" using f(6) by simp
      then show ?thesis by (simp add: deleted_member)
    qed
    with f show ?thesis by blast
  qed
  from a b pf show ?thesis by blast
qed

text \<open>
  Three received messages; the caller finishes the task of the first and raises on the task
  of the second.
\<close>

definition failing_task :: RollupTask where
  "failing_task = test_task\<lparr>bucket_name := str ''bucket2''\<rparr>"

definition test_messages :: "Message list" where
  "test_messages =
     [\<lparr>receipt_handle = str ''handle-1'', body = str ''task-1''\<rparr>,
      \<lparr>receipt_handle = str ''handle-2'', body = str ''task-2''\<rparr>,
      \<lparr>receipt_handle = str ''handle-3'', body = str ''task-3''\<rparr>]"

definition test_loads :: "pystr \<Rightarrow> error + RollupTask" where
  "test_loads b =
     (if b = str ''task-1'' \<or> b = str ''task-3'' then Inr test_task
      else if b = str ''task-2'' then Inr failing_task
      else Inl ValueError)"

definition test_process :: "RollupTask \<Rightarrow> error + unit" where
  "test_process task = (if task = failing_task then Inl RuntimeError else Inr ())"

lemma test_worker_trace:
  "worker test_loads test_process test_messages
   = ([Yielded (test_messages ! 0), Processed test_task, Deleted (test_messages ! 0),
       Yielded (test_messages ! 1), Failed failing_task RuntimeError], Some RuntimeError)"
  by (simp add: worker_def worker_loop_Not_started test_messages_def test_loads_def
      test_process_def failing_task_def test_task_def date_str_def)

theorem delete_after_success_witness:
  "worker test_loads test_process test_messages
   = ([Yielded (test_messages ! 0), Processed test_task, Deleted (test_messages ! 0),
       Yielded (test_messages ! 1), Failed failing_task RuntimeError], Some RuntimeError)
   \<and> distinct test_messages
   \<and> test_process failing_task = Inl RuntimeError
   \<and> test_loads (body (test_messages ! 0)) = Inr test_task
   \<and> (\<exists>r. test_process test_task = Inr r)
   \<and> (\<exists>m. test_loads (body m) = Inr failing_task
          \<and> Deleted m \<notin> set [Yielded (test_messages ! 0), Processed test_task,
                               Deleted (test_messages ! 0), Yielded (test_messages ! 1),
                               Failed failing_task RuntimeError])"
proof -
  let ?trace = "[Yielded (test_messages ! 0), Processed test_task, Deleted (test_messages ! 0),
       Yielded (test_messages ! 1), Failed failing_task RuntimeError]"
  note t = delete_after_success[OF test_worker_trace]
  have d: "distinct test_messages" by (simp add: test_messages_def)
  have "?trace = [Yielded (test_messages ! 0), Processed test_task] @ Deleted (test_messages ! 0)
      # [Yielded (test_messages ! 1), Failed failing_task RuntimeError]"
    by simp
  with t have "\<exists>pre' task r. [Yielded (test_messages ! 0), Processed test_task]
        = pre' @ [Yielded (test_messages ! 0), Processed task]
      \<and> test_loads (body (test_messages ! 0)) = Inr task \<and> test_process task = Inr r"
    by blast
  then have a: "test_loads (body (test_messages ! 0)) = Inr test_task"
    "\<exists>r. test_process test_task = Inr r"
    by auto
  have "?trace = [Yielded (test_messages ! 0), Processed test_task, Deleted (test_messages ! 0),
       Yielded (test_messages ! 1)] @ Failed failing_task RuntimeError # []"
    by simp
  with t have "test_process failing_task = Inl RuntimeError
      \<and> (\<exists>pre' m. [Yielded (test_messages ! 0), Processed test_task, Deleted (test_messages ! 0),
                     Yielded (test_messages ! 1)] = pre' @ [Yielded m]
            \<and> test_loads (body m) = Inr failing_task
            \<and> (distinct test_messages \<longrightarrow> Deleted m \<notin> set ?trace))"
    by blast
  with d have b: "test_process failing_task = Inl RuntimeError"
    "\<exists>m. test_loads (body m) = Inr failing_task \<and> Deleted m \<notin> set ?trace"
    by blast+
  from test_worker_trace d a b show ?thesis by blast
qed


section \<open>The order of the archive\<close>






















end
